theory Spec2Isabelle
  imports Main "HOL-Library.Multiset" "HOL-Library.Sublist"
begin

section \<open>Multiaddresses\<close>

text \<open>
  A multiaddress is a sequence of components, each a protocol code with a textual value
  (\<^verbatim>\<open>/ip4/1.2.3.4/udp/1/quic-v1\<close> is three components). The protocol codes are the
  constants of the multiaddr library that \<^verbatim>\<open>dial_ranker.go\<close> refers to.
\<close>

type_synonym component = "nat \<times> string"
type_synonym multiaddr = "component list"

definition P_IP4 :: nat where "P_IP4 = 4"
definition P_TCP :: nat where "P_TCP = 6"
definition P_IP6 :: nat where "P_IP6 = 41"
definition P_UDP :: nat where "P_UDP = 273"
definition P_WEBRTC_DIRECT :: nat where "P_WEBRTC_DIRECT = 280"
definition P_CIRCUIT :: nat where "P_CIRCUIT = 290"
definition P_ONION3 :: nat where "P_ONION3 = 445"
definition P_QUIC :: nat where "P_QUIC = 460"
definition P_QUIC_V1 :: nat where "P_QUIC_V1 = 461"
definition P_WEBTRANSPORT :: nat where "P_WEBTRANSPORT = 465"

lemmas proto_defs = P_IP4_def P_TCP_def P_IP6_def P_UDP_def P_WEBRTC_DIRECT_def
  P_CIRCUIT_def P_ONION3_def P_QUIC_def P_QUIC_V1_def P_WEBTRANSPORT_def

text \<open>\<^verbatim>\<open>isProtocolAddr\<close>: walk the components, stop at the first one with code \<open>p\<close>.\<close>

fun isProtocolAddr :: "multiaddr \<Rightarrow> nat \<Rightarrow> bool" where
  "isProtocolAddr [] p = False"
| "isProtocolAddr (c # cs) p = (if fst c = p then True else isProtocolAddr cs p)"

definition isQUICAddr :: "multiaddr \<Rightarrow> bool" where
  "isQUICAddr a = (isProtocolAddr a P_QUIC \<or> isProtocolAddr a P_QUIC_V1)"

text \<open>
  \<^verbatim>\<open>Multiaddr.ValueForProtocol\<close>: the value of the first component with the code, or
  the not-found error (here \<open>None\<close>).
\<close>

fun ValueForProtocol :: "multiaddr \<Rightarrow> nat \<Rightarrow> string option" where
  "ValueForProtocol [] p = None"
| "ValueForProtocol (c # cs) p = (if fst c = p then Some (snd c) else ValueForProtocol cs p)"

subsection \<open>\<^verbatim>\<open>strconv.Atoi\<close> and 64-bit \<^verbatim>\<open>int\<close>\<close>

definition isDigit :: "char \<Rightarrow> bool" where
  "isDigit c = (48 \<le> (of_char c :: nat) \<and> (of_char c :: nat) \<le> 57)"

fun parseDigits :: "string \<Rightarrow> nat \<Rightarrow> nat option" where
  "parseDigits [] n = Some n"
| "parseDigits (c # cs) n =
     (if isDigit c then parseDigits cs (n * 10 + ((of_char c :: nat) - 48)) else None)"

text \<open>
  The value \<^verbatim>\<open>strconv.Atoi\<close> returns; \<^verbatim>\<open>score\<close> drops the error. A syntax error gives
  0, a value out of range is clamped to the 64-bit bounds.
\<close>

definition Atoi :: "string \<Rightarrow> int" where
  "Atoi s =
     (case s of
        [] \<Rightarrow> 0
      | c # cs \<Rightarrow>
          (let body = (if c = CHR ''-'' \<or> c = CHR ''+'' then cs else s) in
           if body = [] then 0
           else (case parseDigits body 0 of
                   None \<Rightarrow> 0
                 | Some n \<Rightarrow>
                     if c = CHR ''-'' then max (- (2 ^ 63)) (- int n)
                     else min (2 ^ 63 - 1) (int n))))"

text \<open>Go's \<^verbatim>\<open>int\<close> addition on a 64-bit platform: the sum wraps around.\<close>

definition wrap64 :: "int \<Rightarrow> int" where
  "wrap64 x = (x + 2 ^ 63) mod 2 ^ 64 - 2 ^ 63"

subsection \<open>\<^verbatim>\<open>score\<close>\<close>

definition portOf :: "multiaddr \<Rightarrow> nat \<Rightarrow> int" where
  "portOf a p = Atoi (case ValueForProtocol a p of None \<Rightarrow> [] | Some v \<Rightarrow> v)"

definition score :: "multiaddr \<Rightarrow> int" where
  "score a =
     (let ip4Weight = (if isProtocolAddr a P_IP4 then 2 ^ 18 else 0) in
      if ValueForProtocol a P_WEBTRANSPORT \<noteq> None then
        wrap64 (ip4Weight + 2 ^ 19 + portOf a P_UDP)
      else if ValueForProtocol a P_QUIC \<noteq> None then
        wrap64 (ip4Weight + portOf a P_UDP + 2 ^ 17)
      else if ValueForProtocol a P_QUIC_V1 \<noteq> None then
        wrap64 (ip4Weight + portOf a P_UDP)
      else if ValueForProtocol a P_TCP \<noteq> None then
        wrap64 (ip4Weight + portOf a P_TCP + 2 ^ 20)
      else if ValueForProtocol a P_WEBRTC_DIRECT \<noteq> None then 2 ^ 21
      else 2 ^ 30)"

section \<open>The dial ranker\<close>

text \<open>Durations are \<^verbatim>\<open>time.Duration\<close> values: integer nanoseconds.\<close>

definition Millisecond :: int where "Millisecond = 1000000"
definition Second :: int where "Second = 1000000000"

definition PublicTCPDelay :: int where "PublicTCPDelay = 250 * Millisecond"
definition PrivateTCPDelay :: int where "PrivateTCPDelay = 30 * Millisecond"
definition PublicQUICDelay :: int where "PublicQUICDelay = 250 * Millisecond"
definition PrivateQUICDelay :: int where "PrivateQUICDelay = 30 * Millisecond"
definition RelayDelay :: int where "RelayDelay = 500 * Millisecond"
definition PublicOtherDelay :: int where "PublicOtherDelay = 1 * Second"
definition PrivateOtherDelay :: int where "PrivateOtherDelay = 100 * Millisecond"

lemmas delay_defs = Millisecond_def Second_def PublicTCPDelay_def PrivateTCPDelay_def
  PublicQUICDelay_def PrivateQUICDelay_def RelayDelay_def PublicOtherDelay_def
  PrivateOtherDelay_def

record AddrDelay =
  Addr :: multiaddr
  Delay :: int

text \<open>
  \<^verbatim>\<open>sort.Slice(addrs, score(addrs[i]) < score(addrs[j]))\<close> is not a stable sort: it
  returns some permutation of the slice in which the scores do not decrease, and
  nothing more is promised. The ranker is therefore modelled for an arbitrary sorting
  function \<open>srt\<close> with that contract.
\<close>

definition sortSlice_ok :: "(multiaddr list \<Rightarrow> multiaddr list) \<Rightarrow> bool" where
  "sortSlice_ok srt = (\<forall>xs. mset (srt xs) = mset xs \<and> sorted (map score (srt xs)))"

text \<open>The search loops \<^verbatim>\<open>for j := start; j < len(addrs); j++ { if P(addrs[j]) { ...; break } }\<close>.\<close>

function findFrom :: "('a \<Rightarrow> bool) \<Rightarrow> 'a list \<Rightarrow> nat \<Rightarrow> nat option" where
  "findFrom P xs j =
     (if j < length xs then (if P (xs ! j) then Some j else findFrom P xs (Suc j))
      else None)"
  by pat_completeness auto
termination
  by (relation "measure (\<lambda>(P, xs, j). length xs - j)") auto

declare findFrom.simps [simp del]

text \<open>
  \<^verbatim>\<open>a := addrs[j]; copy(addrs[k+1:], addrs[k:j]); addrs[k] = a\<close>: the element at \<open>j\<close>
  moves to position \<open>k\<close>, the elements between shift up by one.
\<close>

definition moveTo :: "'a list \<Rightarrow> nat \<Rightarrow> nat \<Rightarrow> 'a list" where
  "moveTo xs j k = take k xs @ [xs ! j] @ take (j - k) (drop k xs) @ drop (Suc j) xs"

text \<open>The QUIC half of the reordering block: the new slice, \<^verbatim>\<open>happyEyeballsQUIC\<close> and \<open>i\<close>.\<close>

definition happyQUIC :: "multiaddr list \<Rightarrow> multiaddr list \<times> bool \<times> nat" where
  "happyQUIC addrs =
     (case addrs of
        [] \<Rightarrow> (addrs, False, 0)
      | a0 # _ \<Rightarrow>
          if isQUICAddr a0 \<and> isProtocolAddr a0 P_IP6 then
            (case findFrom (\<lambda>a. isQUICAddr a \<and> isProtocolAddr a P_IP4) addrs 1 of
               Some j \<Rightarrow> ((if j > 1 then moveTo addrs j 1 else addrs), True, j + 1)
             | None \<Rightarrow> (addrs, False, 0))
          else (addrs, False, 0))"

definition tcpStart :: "multiaddr list \<Rightarrow> nat \<Rightarrow> nat" where
  "tcpStart addrs i =
     (case findFrom (\<lambda>a. isProtocolAddr a P_TCP) addrs i of
        Some k \<Rightarrow> k
      | None \<Rightarrow> length addrs)"

definition happyTCP :: "multiaddr list \<Rightarrow> nat \<Rightarrow> multiaddr list \<times> bool" where
  "happyTCP addrs tcpStartIdx =
     (if tcpStartIdx < length addrs \<and> isProtocolAddr (addrs ! tcpStartIdx) P_IP6 then
        (case findFrom (\<lambda>a. isProtocolAddr a P_TCP \<and> isProtocolAddr a P_IP4) addrs
                (tcpStartIdx + 1) of
           Some j \<Rightarrow>
             ((if j > tcpStartIdx + 1 then moveTo addrs j (tcpStartIdx + 1) else addrs), True)
         | None \<Rightarrow> (addrs, False))
      else (addrs, False))"

text \<open>
  The final loop of \<^verbatim>\<open>getAddrDelay\<close>, at index \<open>i\<close> with the running
  \<^verbatim>\<open>tcpFirstDialDelay\<close> and \<^verbatim>\<open>lastQUICOrTCPDelay\<close>.
\<close>

fun delayLoop ::
  "int \<Rightarrow> int \<Rightarrow> int \<Rightarrow> int \<Rightarrow> bool \<Rightarrow> bool \<Rightarrow> nat \<Rightarrow> nat \<Rightarrow> multiaddr list \<Rightarrow> int \<Rightarrow> int
   \<Rightarrow> AddrDelay list" where
  "delayLoop tcpDelay quicDelay otherDelay offset heQUIC heTCP tcpStartIdx i []
     tcpFirstDialDelay lastQUICOrTCPDelay = []"
| "delayLoop tcpDelay quicDelay otherDelay offset heQUIC heTCP tcpStartIdx i (addr # rest)
     tcpFirstDialDelay lastQUICOrTCPDelay =
     (if isQUICAddr addr then
        (let delay = (if i = 1 then quicDelay
                      else if i > 1 then (if heQUIC then 2 * quicDelay else quicDelay)
                      else 0)
         in \<lparr>Addr = addr, Delay = offset + delay\<rparr> #
            delayLoop tcpDelay quicDelay otherDelay offset heQUIC heTCP tcpStartIdx (Suc i) rest
              (delay + tcpDelay) delay)
      else if isProtocolAddr addr P_TCP then
        (let delay = (if i = tcpStartIdx + 1 then tcpDelay
                      else if i > tcpStartIdx + 1 then (if heTCP then 2 * tcpDelay else tcpDelay)
                      else 0) + tcpFirstDialDelay
         in \<lparr>Addr = addr, Delay = offset + delay\<rparr> #
            delayLoop tcpDelay quicDelay otherDelay offset heQUIC heTCP tcpStartIdx (Suc i) rest
              tcpFirstDialDelay delay)
      else
        (let delay = lastQUICOrTCPDelay + otherDelay
         in \<lparr>Addr = addr, Delay = offset + delay\<rparr> #
            delayLoop tcpDelay quicDelay otherDelay offset heQUIC heTCP tcpStartIdx (Suc i) rest
              tcpFirstDialDelay lastQUICOrTCPDelay))"

definition getAddrDelay ::
  "(multiaddr list \<Rightarrow> multiaddr list) \<Rightarrow> multiaddr list \<Rightarrow> int \<Rightarrow> int \<Rightarrow> int \<Rightarrow> int
   \<Rightarrow> AddrDelay list" where
  "getAddrDelay srt addrs tcpDelay quicDelay otherDelay offset =
     (if addrs = [] then []
      else
        (let sorted_addrs = srt addrs;
             (addrs1, heQUIC, i) = happyQUIC sorted_addrs;
             tcpStartIdx = tcpStart addrs1 i;
             (addrs2, heTCP) = happyTCP addrs1 tcpStartIdx
         in delayLoop tcpDelay quicDelay otherDelay offset heQUIC heTCP tcpStartIdx 0 addrs2 0 0))"

definition NoDelayDialRanker ::
  "(multiaddr list \<Rightarrow> multiaddr list) \<Rightarrow> multiaddr list \<Rightarrow> AddrDelay list" where
  "NoDelayDialRanker srt addrs = getAddrDelay srt addrs 0 0 0 0"


text \<open>
  One sorting function with the contract of \<^verbatim>\<open>sort.Slice\<close>, used to evaluate the
  ranker on concrete inputs: the stable insertion sort by score.
\<close>

definition sortByScore :: "multiaddr list \<Rightarrow> multiaddr list" where
  "sortByScore = sort_key score"

text \<open>Addresses of the ranker's test suite.\<close>

definition q1v1 :: multiaddr where
  "q1v1 = [(P_IP4, ''1.2.3.4''), (P_UDP, ''1''), (P_QUIC_V1, [])]"
definition q2v1 :: multiaddr where
  "q2v1 = [(P_IP4, ''1.2.3.4''), (P_UDP, ''2''), (P_QUIC_V1, [])]"
definition q1v16 :: multiaddr where
  "q1v16 = [(P_IP6, ''1::2''), (P_UDP, ''1''), (P_QUIC_V1, [])]"
definition t1 :: multiaddr where
  "t1 = [(P_IP4, ''1.2.3.5''), (P_TCP, ''1'')]"
definition t1v6 :: multiaddr where
  "t1v6 = [(P_IP6, ''1::2''), (P_TCP, ''1'')]"
definition t2 :: multiaddr where
  "t2 = [(P_IP4, ''1.2.3.4''), (P_TCP, ''2'')]"
definition t3 :: multiaddr where
  "t3 = [(P_IP4, ''1.2.3.4''), (P_TCP, ''3'')]"
definition wrtc1 :: multiaddr where
  "wrtc1 = [(P_IP4, ''1.2.3.4''), (P_UDP, ''1''), (P_WEBRTC_DIRECT, [])]"
definition onion1 :: multiaddr where
  "onion1 = [(P_ONION3, ''vww6ybal4bd7szmgncyruucpgfkqahzddi37ktceo3ah7ngmcopnpyyd:1234'')]"

lemmas test_addr_defs = q1v1_def q2v1_def q1v16_def t1_def t1v6_def t2_def t3_def wrtc1_def
  onion1_def

section \<open>Properties of the search and move primitives\<close>

lemma findFrom_Some:
  "findFrom P xs j = Some k \<Longrightarrow>
   j \<le> k \<and> k < length xs \<and> P (xs ! k) \<and> (\<forall>m. j \<le> m \<and> m < k \<longrightarrow> \<not> P (xs ! m))"
proof (induction P xs j rule: findFrom.induct)
  case (1 P xs j)
  show ?case
  proof (cases "j < length xs")
    case False
    with "1.prems" show ?thesis by (simp add: findFrom.simps[of P xs j])
  next
    case True
    show ?thesis
    proof (cases "P (xs ! j)")
      case True
      with \<open>j < length xs\<close> "1.prems" have "k = j" by (simp add: findFrom.simps[of P xs j])
      with True \<open>j < length xs\<close> show ?thesis by auto
    next
      case False
      with \<open>j < length xs\<close> "1.prems" have r: "findFrom P xs (Suc j) = Some k"
        by (simp add: findFrom.simps[of P xs j])
      from "1.IH"[OF \<open>j < length xs\<close> False r]
      have ih: "Suc j \<le> k" "k < length xs" "P (xs ! k)"
        "\<forall>m. Suc j \<le> m \<and> m < k \<longrightarrow> \<not> P (xs ! m)"
        by simp_all
      have "\<not> P (xs ! m)" if "j \<le> m" "m < k" for m
      proof (cases "m = j")
        case True
        with False show ?thesis by simp
      next
        case False
        with that have "Suc j \<le> m" by simp
        with ih(4) that show ?thesis by simp
      qed
      with ih show ?thesis by simp
    qed
  qed
qed

lemma findFrom_None:
  "findFrom P xs j = None \<Longrightarrow> \<forall>m. j \<le> m \<and> m < length xs \<longrightarrow> \<not> P (xs ! m)"
proof (induction P xs j rule: findFrom.induct)
  case (1 P xs j)
  show ?case
  proof (cases "j < length xs")
    case False
    then show ?thesis by auto
  next
    case True
    with "1.prems" have np: "\<not> P (xs ! j)" and r: "findFrom P xs (Suc j) = None"
      by (auto simp: findFrom.simps[of P xs j] split: if_splits)
    from "1.IH"[OF True np r]
    have ih: "\<forall>m. Suc j \<le> m \<and> m < length xs \<longrightarrow> \<not> P (xs ! m)" .
    have "\<not> P (xs ! m)" if "j \<le> m" "m < length xs" for m
    proof (cases "m = j")
      case True
      with np show ?thesis by simp
    next
      case False
      with that have "Suc j \<le> m" by simp
      with ih that show ?thesis by simp
    qed
    then show ?thesis by simp
  qed
qed

lemma moveTo_decomp:
  assumes kj: "k \<le> j" and jl: "j < length xs"
  shows "xs = take k xs @ take (j - k) (drop k xs) @ [xs ! j] @ drop (Suc j) xs"
proof -
  have "drop k xs = take (j - k) (drop k xs) @ drop (j - k) (drop k xs)"
    by (rule append_take_drop_id[symmetric])
  moreover have "drop (j - k) (drop k xs) = drop j xs"
    using kj by (simp add: add.commute)
  moreover have "drop j xs = xs ! j # drop (Suc j) xs"
    using jl by (simp add: Cons_nth_drop_Suc)
  ultimately have "drop k xs = take (j - k) (drop k xs) @ [xs ! j] @ drop (Suc j) xs"
    by simp
  then show ?thesis by (metis append_take_drop_id)
qed

lemma mset_moveTo: "k \<le> j \<Longrightarrow> j < length xs \<Longrightarrow> mset (moveTo xs j k) = mset xs"
proof -
  assume kj: "k \<le> j" and jl: "j < length xs"
  have "mset xs = mset (take k xs @ take (j - k) (drop k xs) @ [xs ! j] @ drop (Suc j) xs)"
    using moveTo_decomp[OF kj jl] by simp
  then show ?thesis by (simp add: moveTo_def)
qed

lemma mset_happyQUIC: "mset (fst (happyQUIC xs)) = mset xs"
  by (auto simp: happyQUIC_def mset_moveTo split: list.splits option.splits
      dest!: findFrom_Some)

lemma mset_happyTCP: "mset (fst (happyTCP xs t)) = mset xs"
  by (auto simp: happyTCP_def mset_moveTo split: option.splits dest!: findFrom_Some)

lemma delayLoop_Addr: "map Addr (delayLoop td qd od off hq ht ts i xs tf lq) = xs"
  by (induction xs arbitrary: i tf lq) (auto simp: Let_def)

lemma delayLoop_zero: "e \<in> set (delayLoop 0 0 0 off hq ht ts i xs 0 0) \<Longrightarrow> Delay e = off"
  by (induction xs arbitrary: i) (auto simp: Let_def split: if_splits)

lemma getAddrDelay_Addr_mset:
  assumes "mset (srt addrs) = mset addrs"
  shows "mset (map Addr (getAddrDelay srt addrs td qd od off)) = mset addrs"
proof (cases "addrs = []")
  case True
  then show ?thesis by (simp add: getAddrDelay_def)
next
  case False
  obtain a1 hq i where q: "happyQUIC (srt addrs) = (a1, hq, i)"
    by (cases "happyQUIC (srt addrs)") auto
  obtain a2 ht where t: "happyTCP a1 (tcpStart a1 i) = (a2, ht)"
    by (cases "happyTCP a1 (tcpStart a1 i)") auto
  have "mset a1 = mset (srt addrs)"
    using mset_happyQUIC[of "srt addrs"] q by simp
  moreover have "mset a2 = mset a1"
    using mset_happyTCP[of a1 "tcpStart a1 i"] t by simp
  ultimately show ?thesis
    using False q t assms by (simp add: getAddrDelay_def delayLoop_Addr)
qed

lemma sortByScore_ok: "sortSlice_ok sortByScore"
  by (simp add: sortSlice_ok_def sortByScore_def)

section \<open>The no-delay ranker\<close>

lemma NoDelay_delays: "e \<in> set (NoDelayDialRanker srt addrs) \<Longrightarrow> Delay e = 0"
  by (auto simp: NoDelayDialRanker_def getAddrDelay_def Let_def
      split: if_splits prod.splits dest: delayLoop_zero)

lemma AddrDelay_zero_eq: "Delay e = 0 \<Longrightarrow> \<lparr>Addr = Addr e, Delay = 0\<rparr> = (e::AddrDelay)"
  by (cases e) simp

text \<open>
  Claim C7. \<^verbatim>\<open>NoDelayDialRanker\<close> returns, for every input list, exactly one pair per input
  address (as a multiset, so independently of the input order and of the order the sort
  leaves equal scores in), and every pair has delay 0.
\<close>

theorem NoDelayDialRanker_all_zero:
  assumes "sortSlice_ok srt"
  shows "mset (NoDelayDialRanker srt addrs) =
         image_mset (\<lambda>a. \<lparr>Addr = a, Delay = 0\<rparr>) (mset addrs)"
proof -
  let ?res = "NoDelayDialRanker srt addrs"
  let ?f = "\<lambda>a. \<lparr>Addr = a, Delay = 0\<rparr>"
  have perm: "mset (srt addrs) = mset addrs"
    using assms by (simp add: sortSlice_ok_def)
  have addrs: "mset (map Addr ?res) = mset addrs"
    unfolding NoDelayDialRanker_def using perm by (rule getAddrDelay_Addr_mset)
  have "\<And>e. e \<in> set ?res \<Longrightarrow> (?f \<circ> Addr) e = e"
    using NoDelay_delays AddrDelay_zero_eq by simp
  then have "map (?f \<circ> Addr) ?res = ?res"
    by (rule map_idI)
  then have "map ?f (map Addr ?res) = ?res"
    by simp
  then have "mset ?res = mset (map ?f (map Addr ?res))"
    by simp
  also have "\<dots> = image_mset ?f (mset (map Addr ?res))"
    by (rule mset_map)
  finally show ?thesis using addrs by simp
qed


theorem NoDelayDialRanker_all_zero_witness:
  "sortSlice_ok sortByScore \<and>
   mset (NoDelayDialRanker sortByScore [t1, q1v1, wrtc1]) =
     {#\<lparr>Addr = t1, Delay = 0\<rparr>, \<lparr>Addr = q1v1, Delay = 0\<rparr>, \<lparr>Addr = wrtc1, Delay = 0\<rparr>#}"
proof -
  have h: "sortSlice_ok sortByScore" by (rule sortByScore_ok)
  have "mset (NoDelayDialRanker sortByScore [t1, q1v1, wrtc1]) =
         image_mset (\<lambda>a. \<lparr>Addr = a, Delay = 0\<rparr>) (mset [t1, q1v1, wrtc1])"
    using h by (rule NoDelayDialRanker_all_zero)
  then show ?thesis using h by simp
qed

text \<open>
  \<^verbatim>\<open>filterAddrs\<close> filters the slice in place: a matching element is swapped down to
  position \<open>j\<close>; the result is the two halves \<^verbatim>\<open>addrs[:j]\<close> and \<^verbatim>\<open>addrs[j:]\<close>.
\<close>

function filterLoop :: "('a \<Rightarrow> bool) \<Rightarrow> 'a list \<Rightarrow> nat \<Rightarrow> nat \<Rightarrow> 'a list \<times> 'a list" where
  "filterLoop f addrs i j =
     (if i < length addrs then
        (if f (addrs ! i) then
           filterLoop f (addrs[i := addrs ! j, j := addrs ! i]) (Suc i) (Suc j)
         else filterLoop f addrs (Suc i) j)
      else (take j addrs, drop j addrs))"
  by pat_completeness auto
termination
  by (relation "measure (\<lambda>(f, addrs, i, j). length addrs - i)") auto

declare filterLoop.simps [simp del]

definition filterAddrs :: "('a \<Rightarrow> bool) \<Rightarrow> 'a list \<Rightarrow> 'a list \<times> 'a list" where
  "filterAddrs f addrs = filterLoop f addrs 0 0"

text \<open>
  The relay test \<^verbatim>\<open>isRelayAddr\<close> and the private-network test \<^verbatim>\<open>manet.IsPrivateAddr\<close>
  are parameters \<open>rel\<close> and \<open>priv\<close> of the ranker.
\<close>

definition hasIP :: "multiaddr \<Rightarrow> bool" where
  "hasIP a = (isProtocolAddr a P_IP4 \<or> isProtocolAddr a P_IP6)"

text \<open>The three \<^verbatim>\<open>filterAddrs\<close> calls: relay, private, public and the remaining addresses.\<close>

definition partitionAddrs ::
  "(multiaddr \<Rightarrow> bool) \<Rightarrow> (multiaddr \<Rightarrow> bool) \<Rightarrow> multiaddr list
   \<Rightarrow> multiaddr list \<times> multiaddr list \<times> multiaddr list \<times> multiaddr list" where
  "partitionAddrs rel priv addrs =
     (let (relay, addrs1) = filterAddrs rel addrs;
          (pvt, addrs2) = filterAddrs priv addrs1;
          (public, addrs3) = filterAddrs hasIP addrs2
      in (relay, pvt, public, addrs3))"

text \<open>The three \<^verbatim>\<open>getAddrDelay\<close> calls appended to \<^verbatim>\<open>res\<close>.\<close>

definition rankedGroups ::
  "(multiaddr list \<Rightarrow> multiaddr list) \<Rightarrow> multiaddr list \<Rightarrow> multiaddr list \<Rightarrow> multiaddr list
   \<Rightarrow> AddrDelay list" where
  "rankedGroups srt relay pvt public =
     (let relayOffset = (if length public > 0 then RelayDelay else 0)
      in getAddrDelay srt pvt PrivateTCPDelay PrivateQUICDelay PrivateOtherDelay 0 @
         getAddrDelay srt public PublicTCPDelay PublicQUICDelay PublicOtherDelay 0 @
         getAddrDelay srt relay PublicTCPDelay PublicQUICDelay PublicOtherDelay relayOffset)"

definition DefaultDialRanker ::
  "(multiaddr list \<Rightarrow> multiaddr list) \<Rightarrow> (multiaddr \<Rightarrow> bool) \<Rightarrow> (multiaddr \<Rightarrow> bool)
   \<Rightarrow> multiaddr list \<Rightarrow> AddrDelay list" where
  "DefaultDialRanker srt rel priv addrs =
     (let (relay, pvt, public, rest) = partitionAddrs rel priv addrs;
          res = rankedGroups srt relay pvt public;
          maxDelay = (if length res > 0 then Delay (res ! (length res - 1)) else 0)
      in res @ map (\<lambda>a. \<lparr>Addr = a, Delay = maxDelay + PublicOtherDelay\<rparr>) rest)"

lemma filterLoop_spec:
  assumes "j \<le> i" "\<forall>k<j. f (xs ! k)" "\<forall>k. j \<le> k \<and> k < i \<longrightarrow> \<not> f (xs ! k)"
    and "filterLoop f xs i j = (a, b)"
  shows "mset a + mset b = mset xs \<and> (\<forall>x\<in>set a. f x) \<and> (\<forall>x\<in>set b. \<not> f x)"
  using assms
proof (induction f xs i j rule: filterLoop.induct)
  case (1 f addrs i j)
  show ?case
  proof (cases "i < length addrs")
    case False
    with "1.prems" have ab: "a = take j addrs" "b = drop j addrs"
      by (simp_all add: filterLoop.simps[of f addrs i j])
    have "mset a + mset b = mset addrs"
      unfolding ab by (metis append_take_drop_id mset_append)
    moreover have "\<forall>x\<in>set a. f x"
      unfolding ab using "1.prems"(1,2) False
      by (auto simp: in_set_conv_nth)
    moreover have "\<forall>x\<in>set b. \<not> f x"
    proof
      fix x assume "x \<in> set b"
      then obtain m where m: "m < length addrs - j" "x = addrs ! (j + m)"
        unfolding ab by (auto simp: in_set_conv_nth)
      with False "1.prems"(3) show "\<not> f x" by simp
    qed
    ultimately show ?thesis by simp
  next
    case True
    show ?thesis
    proof (cases "f (addrs ! i)")
      case False
      with True "1.prems" have r: "filterLoop f addrs (Suc i) j = (a, b)"
        by (simp add: filterLoop.simps[of f addrs i j])
      have "\<forall>k. j \<le> k \<and> k < Suc i \<longrightarrow> \<not> f (addrs ! k)"
        using "1.prems"(3) False by (auto simp: less_Suc_eq)
      with "1.IH"(2)[OF True False _ "1.prems"(2) _ r] "1.prems"(1) show ?thesis by simp
    next
      case fi: True
      let ?ys = "addrs[i := addrs ! j, j := addrs ! i]"
      from True fi "1.prems" have r: "filterLoop f ?ys (Suc i) (Suc j) = (a, b)"
        by (simp add: filterLoop.simps[of f addrs i j])
      have jl: "j < length addrs" using True "1.prems"(1) by simp
      have p1: "\<forall>k<Suc j. f (?ys ! k)"
        using "1.prems"(1,2) fi True jl by (auto simp: nth_list_update less_Suc_eq)
      have p2: "\<forall>k. Suc j \<le> k \<and> k < Suc i \<longrightarrow> \<not> f (?ys ! k)"
        using "1.prems"(1,3) True jl by (auto simp: nth_list_update less_Suc_eq)
      have ms: "mset ?ys = mset addrs"
        using True jl by (simp add: mset_swap)
      from "1.IH"(1)[OF True fi _ p1 p2 r] "1.prems"(1) ms show ?thesis by simp
    qed
  qed
qed

lemma filterAddrs_spec:
  assumes "filterAddrs f xs = (a, b)"
  shows "mset a = filter_mset f (mset xs)" "mset b = filter_mset (\<lambda>x. \<not> f x) (mset xs)"
proof -
  have s: "mset a + mset b = mset xs \<and> (\<forall>x\<in>set a. f x) \<and> (\<forall>x\<in>set b. \<not> f x)"
    using assms filterLoop_spec[of 0 0 f xs a b] by (simp add: filterAddrs_def)
  then have fa: "filter_mset f (mset a) = mset a" and fb: "filter_mset f (mset b) = {#}"
    by (auto simp: filter_mset_eq_conv)
  have "filter_mset f (mset xs) = filter_mset f (mset a) + filter_mset f (mset b)"
    using s by (metis filter_union_mset)
  with fa fb show "mset a = filter_mset f (mset xs)" by simp
  from s have ga: "filter_mset (\<lambda>x. \<not> f x) (mset a) = {#}"
    and gb: "filter_mset (\<lambda>x. \<not> f x) (mset b) = mset b"
    by (auto simp: filter_mset_eq_conv)
  have "filter_mset (\<lambda>x. \<not> f x) (mset xs) =
        filter_mset (\<lambda>x. \<not> f x) (mset a) + filter_mset (\<lambda>x. \<not> f x) (mset b)"
    using s by (metis filter_union_mset)
  with ga gb show "mset b = filter_mset (\<lambda>x. \<not> f x) (mset xs)" by simp
qed


text \<open>
  Modelled from the spec: \<^verbatim>\<open>isRelayAddr\<close> is not among the sources. The spec calls the group
  the relay (circuit) addresses: the addresses with a circuit component.
\<close>

definition isRelayAddr :: "multiaddr \<Rightarrow> bool" where
  "isRelayAddr a = isProtocolAddr a P_CIRCUIT"

text \<open>
  One instance of the private-network parameter, used to evaluate the ranker on concrete
  inputs: an IPv4 component in 10.0.0.0/8, 127.0.0.0/8 or 192.168.0.0/16, read off the
  dotted text.
\<close>

definition isPrivateByPrefix :: "multiaddr \<Rightarrow> bool" where
  "isPrivateByPrefix a =
     (case ValueForProtocol a P_IP4 of
        None \<Rightarrow> False
      | Some v \<Rightarrow> prefix ''10.'' v \<or> prefix ''127.'' v \<or> prefix ''192.168.'' v)"

definition wrtc1v6 :: multiaddr where
  "wrtc1v6 = [(P_IP6, ''1::2''), (P_UDP, ''1''), (P_WEBRTC_DIRECT, [])]"
definition onlyIP :: multiaddr where
  "onlyIP = [(P_IP4, ''1.2.3.4'')]"
definition r1 :: multiaddr where
  "r1 = [(P_IP4, ''1.2.3.4''), (P_TCP, ''1''), (P_CIRCUIT, [])]"



section \<open>Happy eyeballs in the default ranker\<close>

text \<open>
  The port components of a well-formed multiaddress are decimal numbers below \<open>2\<^sup>1\<^sup>6\<close>.
\<close>

definition validPorts :: "multiaddr \<Rightarrow> bool" where
  "validPorts a =
     (\<forall>c\<in>set a. fst c = P_UDP \<or> fst c = P_TCP \<longrightarrow> 0 \<le> Atoi (snd c) \<and> Atoi (snd c) \<le> 65535)"

definition isPublicDirect :: "(multiaddr \<Rightarrow> bool) \<Rightarrow> (multiaddr \<Rightarrow> bool) \<Rightarrow> multiaddr \<Rightarrow> bool" where
  "isPublicDirect rel priv a = (\<not> rel a \<and> \<not> priv a \<and> hasIP a)"

lemma ValueForProtocol_None_iff: "ValueForProtocol a p = None \<longleftrightarrow> \<not> isProtocolAddr a p"
  by (induction a) auto

lemma ValueForProtocol_in: "ValueForProtocol a p = Some v \<Longrightarrow> (p, v) \<in> set a"
  by (induction a) (auto split: if_splits)

lemma Atoi_Nil: "Atoi [] = 0"
  by (simp add: Atoi_def)

lemma portOf_bounds:
  assumes "validPorts a" "p = P_UDP \<or> p = P_TCP"
  shows "0 \<le> portOf a p \<and> portOf a p \<le> 65535"
proof (cases "ValueForProtocol a p")
  case None
  then show ?thesis by (simp add: portOf_def Atoi_Nil)
next
  case (Some v)
  then have "(p, v) \<in> set a" by (rule ValueForProtocol_in)
  with assms have "0 \<le> Atoi v \<and> Atoi v \<le> 65535"
    unfolding validPorts_def by fastforce
  with Some show ?thesis by (simp add: portOf_def)
qed

lemma ValueForProtocol_Some_iff: "(\<exists>y. ValueForProtocol a p = Some y) \<longleftrightarrow> isProtocolAddr a p"
  using ValueForProtocol_None_iff[of a p] by auto

lemmas vfp_simps = ValueForProtocol_None_iff ValueForProtocol_Some_iff

lemma wrap64_id: "0 \<le> x \<Longrightarrow> x < 1099511627776 \<Longrightarrow> wrap64 x = x"
  by (simp add: wrap64_def)

lemma score_low:
  assumes "isQUICAddr a" "\<not> isProtocolAddr a P_WEBTRANSPORT" "\<not> isProtocolAddr a P_IP4"
    "validPorts a"
  shows "score a < 2 ^ 18"
proof -
  from portOf_bounds[OF assms(4), of P_UDP]
  have b: "0 \<le> portOf a P_UDP" "portOf a P_UDP \<le> 65535" by simp_all
  from assms(1) have "isProtocolAddr a P_QUIC \<or> isProtocolAddr a P_QUIC_V1"
    by (simp add: isQUICAddr_def)
  with assms(2,3) b show ?thesis
    by (auto simp: score_def vfp_simps wrap64_id)
qed

lemma score_high:
  assumes "validPorts x" "isProtocolAddr x P_IP4 \<or> \<not> isQUICAddr x"
  shows "2 ^ 18 \<le> score x"
proof -
  from portOf_bounds[OF assms(1), of P_UDP]
  have u: "0 \<le> portOf x P_UDP" "portOf x P_UDP \<le> 65535" by simp_all
  from portOf_bounds[OF assms(1), of P_TCP]
  have t: "0 \<le> portOf x P_TCP" "portOf x P_TCP \<le> 65535" by simp_all
  show ?thesis
  proof (cases "isProtocolAddr x P_IP4")
    case True
    then show ?thesis using u t
      by (simp add: score_def vfp_simps wrap64_id)
  next
    case False
    with assms(2) have "\<not> isProtocolAddr x P_QUIC" "\<not> isProtocolAddr x P_QUIC_V1"
      by (simp_all add: isQUICAddr_def)
    with False show ?thesis using u t
      by (simp add: score_def vfp_simps wrap64_id)
  qed
qed

lemma sorted_score_head:
  assumes srt: "sorted (map score L)" and mem: "a \<in> set L"
    and least: "\<forall>x\<in>set L. x \<noteq> a \<longrightarrow> score a < score x"
  shows "\<exists>L'. L = a # L'"
proof (cases L)
  case Nil
  with mem show ?thesis by simp
next
  case (Cons h L')
  have "score h \<le> score a"
  proof (cases "h = a")
    case False
    with mem Cons have "a \<in> set L'" by simp
    with srt Cons show ?thesis by auto
  qed simp
  with least Cons have "h = a" by force
  with Cons show ?thesis by simp
qed

lemma happyQUIC_shape:
  assumes a6: "isQUICAddr a6" "isProtocolAddr a6 P_IP6"
    and a4: "a4 \<in> set L'" "isQUICAddr a4" "isProtocolAddr a4 P_IP4"
    and only: "\<forall>x\<in>set L'. isQUICAddr x \<and> isProtocolAddr x P_IP4 \<longrightarrow> x = a4"
  shows "\<exists>rest i. happyQUIC (a6 # L') = (a6 # a4 # rest, True, i) \<and> 2 \<le> i \<and>
           i \<le> Suc (Suc (length rest))"
proof -
  let ?L = "a6 # L'"
  let ?Q = "\<lambda>a. isQUICAddr a \<and> isProtocolAddr a P_IP4"
  from a4(1) obtain m where m: "m < length L'" "L' ! m = a4"
    by (auto simp: in_set_conv_nth)
  have "findFrom ?Q ?L 1 \<noteq> None"
  proof
    assume "findFrom ?Q ?L 1 = None"
    from findFrom_None[OF this] have "1 \<le> Suc m \<and> Suc m < length ?L \<longrightarrow> \<not> ?Q (?L ! Suc m)"
      by (rule spec)
    with m(1) have "\<not> ?Q (?L ! Suc m)" by simp
    with m(2) a4 show False by simp
  qed
  then obtain j where j: "findFrom ?Q ?L 1 = Some j" by auto
  from findFrom_Some[OF j] have jp: "1 \<le> j" "j < length ?L" "?Q (?L ! j)" by blast+
  then obtain n where n: "j = Suc n" "n < length L'" by (cases j) auto
  with jp(3) have "?Q (L' ! n)" by simp
  moreover have "L' ! n \<in> set L'" using n(2) by simp
  ultimately have ln: "L' ! n = a4" using only by blast
  show ?thesis
  proof (cases "j > 1")
    case False
    with n have "n = 0" by simp
    with ln n(2) obtain r where r: "L' = a4 # r" by (cases L') auto
    with j False a6 n \<open>n = 0\<close> show ?thesis
      by (simp add: happyQUIC_def)
  next
    case True
    have mv: "moveTo ?L j 1 = a6 # a4 # (take n L' @ drop (Suc n) L')"
      using n ln by (simp add: moveTo_def)
    have "length (take n L' @ drop (Suc n) L') = length L' - 1"
      using n(2) by simp
    with j True a6 mv n show ?thesis
      by (simp add: happyQUIC_def)
  qed
qed

lemma take2_moveTo:
  assumes "2 \<le> k" "k \<le> j" "j < length xs"
  shows "take 2 (moveTo xs j k) = take 2 xs"
proof -
  have "take 2 (moveTo xs j k) = take 2 (take k xs)"
    using assms by (simp add: moveTo_def)
  also have "\<dots> = take 2 xs" using assms by (simp add: min_def)
  finally show ?thesis .
qed

lemma length_moveTo: "k \<le> j \<Longrightarrow> j < length xs \<Longrightarrow> length (moveTo xs j k) = length xs"
  by (metis mset_moveTo size_mset)

lemma happyTCP_shape:
  assumes "2 \<le> t"
  shows "\<exists>rest'. fst (happyTCP (a # b # rest) t) = a # b # rest'"
proof -
  let ?xs = "a # b # rest"
  let ?ys = "fst (happyTCP ?xs t)"
  have tk: "take 2 ?ys = take 2 ?xs"
    using assms
    by (auto simp: happyTCP_def take2_moveTo split: option.splits dest!: findFrom_Some)
  have "length ?ys = length ?xs"
    by (metis mset_happyTCP size_mset)
  then obtain a' b' r' where ys: "?ys = a' # b' # r'"
    by (cases ?ys; cases "tl ?ys") auto
  with tk show ?thesis by simp
qed

lemma delayLoop_happy_prefix:
  assumes "isQUICAddr a6" "isQUICAddr a4"
  shows "delayLoop td qd od off hq ht ts 0 (a6 # a4 # rest) 0 0 =
           \<lparr>Addr = a6, Delay = off\<rparr> # \<lparr>Addr = a4, Delay = off + qd\<rparr> #
           delayLoop td qd od off hq ht ts 2 rest (qd + td) qd"
  using assms by (simp add: Let_def numeral_2_eq_2)

lemma tcpStart_ge: "i \<le> length xs \<Longrightarrow> i \<le> tcpStart xs i"
  by (auto simp: tcpStart_def split: option.splits dest!: findFrom_Some)

lemma getAddrDelay_Addr_set:
  assumes "sortSlice_ok srt" "e \<in> set (getAddrDelay srt g td qd od off)"
  shows "Addr e \<in> set g"
proof -
  from assms(1) have "mset (srt g) = mset g" by (simp add: sortSlice_ok_def)
  then have "mset (map Addr (getAddrDelay srt g td qd od off)) = mset g"
    by (rule getAddrDelay_Addr_mset)
  then have "set (map Addr (getAddrDelay srt g td qd od off)) = set g"
    by (rule mset_eq_setD)
  with assms(2) show ?thesis by auto
qed

lemma getAddrDelay_happy:
  assumes ok: "sortSlice_ok srt"
    and a6: "count (mset g) a6 = 1" "isQUICAddr a6" "isProtocolAddr a6 P_IP6"
      "\<not> isProtocolAddr a6 P_IP4" "\<not> isProtocolAddr a6 P_WEBTRANSPORT"
    and a4: "count (mset g) a4 = 1" "isQUICAddr a4" "isProtocolAddr a4 P_IP4"
    and only: "\<forall>x\<in>set g. isQUICAddr x \<longrightarrow> x = a6 \<or> x = a4"
    and ports: "\<forall>x\<in>set g. validPorts x"
  shows "\<exists>tl. getAddrDelay srt g td qd od off =
           \<lparr>Addr = a6, Delay = off\<rparr> # \<lparr>Addr = a4, Delay = off + qd\<rparr> # tl \<and>
           a6 \<notin> Addr ` set tl \<and> a4 \<notin> Addr ` set tl"
proof -
  let ?L = "srt g"
  from ok have perm: "mset ?L = mset g" and srtd: "sorted (map score ?L)"
    by (simp_all add: sortSlice_ok_def)
  from perm have sets: "set ?L = set g" by (rule mset_eq_setD)
  from a6(1) have a6g: "a6 \<in> set g" by (metis count_mset_0_iff zero_neq_one)
  from a4(1) have a4g: "a4 \<in> set g" by (metis count_mset_0_iff zero_neq_one)
  have ne: "a4 \<noteq> a6" using a4(3) a6(4) by auto
  have low: "score a6 < 2 ^ 18"
  proof -
    from ports a6g have "validPorts a6" by blast
    with a6(2,5,4) show ?thesis by (rule score_low)
  qed
  have least: "\<forall>x\<in>set ?L. x \<noteq> a6 \<longrightarrow> score a6 < score x"
  proof (intro ballI impI)
    fix x assume x: "x \<in> set ?L" "x \<noteq> a6"
    with sets have xg: "x \<in> set g" by simp
    with only x(2) have "isProtocolAddr x P_IP4 \<or> \<not> isQUICAddr x"
      using a4(3) by auto
    moreover from xg ports have "validPorts x" by blast
    ultimately have "2 ^ 18 \<le> score x" by (rule score_high[rotated])
    with low show "score a6 < score x" by simp
  qed
  from sorted_score_head[OF srtd _ least] a6g sets obtain L' where L: "?L = a6 # L'"
    by auto
  have "count (mset (a6 # L')) a6 = 1" using perm L a6(1) by simp
  then have "count (mset L') a6 = 0" by simp
  then have a6L': "a6 \<notin> set L'" by (simp add: count_mset_0_iff)
  from a4g sets L ne have a4L': "a4 \<in> set L'" by auto
  have onlyL': "\<forall>x\<in>set L'. isQUICAddr x \<and> isProtocolAddr x P_IP4 \<longrightarrow> x = a4"
  proof (intro ballI impI)
    fix x assume x: "x \<in> set L'" "isQUICAddr x \<and> isProtocolAddr x P_IP4"
    then have "x \<in> set g" using sets L by auto
    with only x(2) a6(4) show "x = a4" by auto
  qed
  from happyQUIC_shape[OF a6(2,3) a4L' a4(2,3) onlyL'] L
  obtain rest i where hq: "happyQUIC ?L = (a6 # a4 # rest, True, i)"
    and i: "2 \<le> i" "i \<le> Suc (Suc (length rest))"
    by auto
  let ?a1 = "a6 # a4 # rest"
  let ?t = "tcpStart ?a1 i"
  have t2: "2 \<le> ?t" using tcpStart_ge[of i ?a1] i by simp
  obtain a2 ht where ht: "happyTCP ?a1 ?t = (a2, ht)"
    by (cases "happyTCP ?a1 ?t") auto
  from happyTCP_shape[OF t2, of a6 a4 rest] ht obtain rest' where a2: "a2 = a6 # a4 # rest'"
    by auto
  have m1: "mset ?a1 = mset ?L" using mset_happyQUIC[of ?L] hq by simp
  have m2: "mset a2 = mset ?a1" using mset_happyTCP[of ?a1 ?t] ht by simp
  from m1 m2 perm a2 have mr: "mset (a6 # a4 # rest') = mset g" by simp
  have "count (mset rest') a6 = 0"
  proof -
    have "count (mset (a6 # a4 # rest')) a6 = 1" using mr a6(1) by simp
    with ne show ?thesis by simp
  qed
  then have r6: "a6 \<notin> set rest'" by (simp add: count_mset_0_iff)
  have "count (mset rest') a4 = 0"
  proof -
    have "count (mset (a6 # a4 # rest')) a4 = 1" using mr a4(1) by simp
    with ne show ?thesis by simp
  qed
  then have r4: "a4 \<notin> set rest'" by (simp add: count_mset_0_iff)
  have gne: "g \<noteq> []" using a6g by auto
  let ?tl = "delayLoop td qd od off True ht ?t 2 rest' (qd + td) qd"
  have "getAddrDelay srt g td qd od off =
          delayLoop td qd od off True ht ?t 0 (a6 # a4 # rest') 0 0"
    using gne hq ht a2 by (simp add: getAddrDelay_def)
  also have "\<dots> = \<lparr>Addr = a6, Delay = off\<rparr> # \<lparr>Addr = a4, Delay = off + qd\<rparr> # ?tl"
    using a6(2) a4(2) by (rule delayLoop_happy_prefix)
  finally have eq: "getAddrDelay srt g td qd od off =
      \<lparr>Addr = a6, Delay = off\<rparr> # \<lparr>Addr = a4, Delay = off + qd\<rparr> # ?tl" .
  have "Addr ` set ?tl = set rest'"
    by (metis delayLoop_Addr set_map)
  with r6 r4 eq show ?thesis by auto
qed

lemma partitionAddrs_spec:
  assumes "partitionAddrs rel priv addrs = (relay, pvt, public, rest)"
  shows "mset relay = filter_mset rel (mset addrs)"
    and "mset pvt = filter_mset (\<lambda>a. \<not> rel a \<and> priv a) (mset addrs)"
    and "mset public = filter_mset (isPublicDirect rel priv) (mset addrs)"
    and "mset rest = filter_mset (\<lambda>a. \<not> rel a \<and> \<not> priv a \<and> \<not> hasIP a) (mset addrs)"
proof -
  obtain r1 a1 where f1: "filterAddrs rel addrs = (r1, a1)"
    by (cases "filterAddrs rel addrs") auto
  obtain r2 a2 where f2: "filterAddrs priv a1 = (r2, a2)"
    by (cases "filterAddrs priv a1") auto
  obtain r3 a3 where f3: "filterAddrs hasIP a2 = (r3, a3)"
    by (cases "filterAddrs hasIP a2") auto
  from assms f1 f2 f3 have eqs: "relay = r1" "pvt = r2" "public = r3" "rest = a3"
    by (simp_all add: partitionAddrs_def)
  note s1 = filterAddrs_spec[OF f1] and s2 = filterAddrs_spec[OF f2]
    and s3 = filterAddrs_spec[OF f3]
  show "mset relay = filter_mset rel (mset addrs)"
    using s1(1) eqs by simp
  show "mset pvt = filter_mset (\<lambda>a. \<not> rel a \<and> priv a) (mset addrs)"
    using s1(2) s2(1) eqs by (simp add: filter_filter_mset conj_commute)
  have a2: "mset a2 = filter_mset (\<lambda>a. \<not> rel a \<and> \<not> priv a) (mset addrs)"
    using s1(2) s2(2) by (simp add: filter_filter_mset conj_commute)
  show "mset public = filter_mset (isPublicDirect rel priv) (mset addrs)"
  proof -
    have "isPublicDirect rel priv = (\<lambda>a. \<not> rel a \<and> \<not> priv a \<and> hasIP a)"
      by (auto simp: isPublicDirect_def)
    with a2 s3(1) eqs show ?thesis by (simp add: filter_filter_mset)
  qed
  show "mset rest = filter_mset (\<lambda>a. \<not> rel a \<and> \<not> priv a \<and> \<not> hasIP a) (mset addrs)"
    using a2 s3(2) eqs by (simp add: filter_filter_mset)
qed

lemma DefaultDialRanker_unfold:
  assumes "partitionAddrs rel priv addrs = (relay, pvt, public, rest)"
  shows "DefaultDialRanker srt rel priv addrs =
           rankedGroups srt relay pvt public @
           map (\<lambda>a. \<lparr>Addr = a,
                      Delay = (if rankedGroups srt relay pvt public = [] then 0
                               else Delay (last (rankedGroups srt relay pvt public))) +
                              PublicOtherDelay\<rparr>) rest"
  using assms by (simp add: DefaultDialRanker_def Let_def last_conv_nth)

lemma filter_Addr_none:
  assumes "\<forall>e\<in>set xs. Addr e \<noteq> a"
  shows "filter (\<lambda>e. Addr e = a) xs = []"
  using assms by (induction xs) auto

text \<open>
  Claim C5. Among the public direct addresses of the input let there be exactly one QUIC
  address over IPv6 and exactly one over IPv4 (QUIC proper, the fastest class: no
  WebTransport component on the IPv6 one), whatever else the input holds. Then
  \<^verbatim>\<open>DefaultDialRanker\<close> returns exactly one entry for each of the two: the IPv6 address
  with delay 0 and the IPv4 address with delay \<^verbatim>\<open>PublicQUICDelay\<close>.
\<close>

theorem DefaultDialRanker_happy_eyeballs:
  assumes ok: "sortSlice_ok srt"
    and a6: "isPublicDirect rel priv a6" "isQUICAddr a6" "isProtocolAddr a6 P_IP6"
      "\<not> isProtocolAddr a6 P_IP4" "\<not> isProtocolAddr a6 P_WEBTRANSPORT"
    and a4: "isPublicDirect rel priv a4" "isQUICAddr a4" "isProtocolAddr a4 P_IP4"
    and once: "count (mset addrs) a6 = 1" "count (mset addrs) a4 = 1"
    and only: "\<forall>x\<in>set addrs. isPublicDirect rel priv x \<and> isQUICAddr x \<longrightarrow> x = a6 \<or> x = a4"
    and ports: "\<forall>x\<in>set addrs. isPublicDirect rel priv x \<longrightarrow> validPorts x"
  shows "filter (\<lambda>e. Addr e = a6) (DefaultDialRanker srt rel priv addrs) =
           [\<lparr>Addr = a6, Delay = 0\<rparr>] \<and>
         filter (\<lambda>e. Addr e = a4) (DefaultDialRanker srt rel priv addrs) =
           [\<lparr>Addr = a4, Delay = PublicQUICDelay\<rparr>]"
proof -
  obtain relay pvt public rest where
    part: "partitionAddrs rel priv addrs = (relay, pvt, public, rest)"
    by (cases "partitionAddrs rel priv addrs") auto
  note ps = partitionAddrs_spec[OF part]
  have pubset: "set public = {x \<in> set addrs. isPublicDirect rel priv x}"
    using ps(3) by (metis set_mset_filter set_mset_mset)
  have c6: "count (mset public) a6 = 1" using ps(3) a6(1) once(1) by simp
  have c4: "count (mset public) a4 = 1" using ps(3) a4(1) once(2) by simp
  have only': "\<forall>x\<in>set public. isQUICAddr x \<longrightarrow> x = a6 \<or> x = a4"
    using only pubset by auto
  have ports': "\<forall>x\<in>set public. validPorts x"
    using ports pubset by auto
  let ?pvtR = "getAddrDelay srt pvt PrivateTCPDelay PrivateQUICDelay PrivateOtherDelay 0"
  let ?pubR = "getAddrDelay srt public PublicTCPDelay PublicQUICDelay PublicOtherDelay 0"
  let ?off = "if length public > 0 then RelayDelay else 0"
  let ?relR = "getAddrDelay srt relay PublicTCPDelay PublicQUICDelay PublicOtherDelay ?off"
  from getAddrDelay_happy[OF ok c6 a6(2-5) c4 a4(2,3) only' ports',
      of PublicTCPDelay PublicQUICDelay PublicOtherDelay 0]
  obtain tl where pub: "?pubR = \<lparr>Addr = a6, Delay = 0\<rparr> # \<lparr>Addr = a4, Delay = PublicQUICDelay\<rparr> # tl"
    and tl: "a6 \<notin> Addr ` set tl" "a4 \<notin> Addr ` set tl"
    by auto
  have ne: "a4 \<noteq> a6" using a4(3) a6(4) by auto
  define G where "G = rankedGroups srt relay pvt public"
  define d where "d = (if G = [] then 0 else Delay (last G)) + PublicOtherDelay"
  have ddr0: "DefaultDialRanker srt rel priv addrs =
      G @ map (\<lambda>a. \<lparr>Addr = a, Delay = d\<rparr>) rest"
    unfolding G_def d_def by (rule DefaultDialRanker_unfold[OF part])
  have rg: "G = ?pvtR @ ?pubR @ ?relR"
    unfolding G_def by (simp add: rankedGroups_def)
  have ddr: "DefaultDialRanker srt rel priv addrs =
      (?pvtR @ ?pubR @ ?relR) @ map (\<lambda>a. \<lparr>Addr = a, Delay = d\<rparr>) rest"
    using ddr0 unfolding rg .
  have pvtset: "\<forall>x\<in>set pvt. priv x"
    using ps(2) by (metis (mono_tags, lifting) mem_Collect_eq set_mset_filter set_mset_mset)
  have relset: "\<forall>x\<in>set relay. rel x"
    using ps(1) by (metis (mono_tags, lifting) mem_Collect_eq set_mset_filter set_mset_mset)
  have restset: "\<forall>x\<in>set rest. \<not> hasIP x"
    using ps(4) by (metis (mono_tags, lifting) mem_Collect_eq set_mset_filter set_mset_mset)
  have np: "\<not> priv a6" "\<not> priv a4" "\<not> rel a6" "\<not> rel a4" "hasIP a6" "hasIP a4"
    using a6(1) a4(1) by (simp_all add: isPublicDirect_def)
  have f_pvt: "filter (\<lambda>e. Addr e = a) ?pvtR = []" if "\<not> priv a" for a
  proof (rule filter_Addr_none, rule ballI)
    fix e assume "e \<in> set ?pvtR"
    then have "Addr e \<in> set pvt" by (rule getAddrDelay_Addr_set[OF ok])
    with pvtset that show "Addr e \<noteq> a" by auto
  qed
  have f_rel: "filter (\<lambda>e. Addr e = a) ?relR = []" if "\<not> rel a" for a
  proof (rule filter_Addr_none, rule ballI)
    fix e assume "e \<in> set ?relR"
    then have "Addr e \<in> set relay" by (rule getAddrDelay_Addr_set[OF ok])
    with relset that show "Addr e \<noteq> a" by auto
  qed
  have f_rest: "filter (\<lambda>e. Addr e = a) (map (\<lambda>a. \<lparr>Addr = a, Delay = d\<rparr>) rest) = []"
    if "hasIP a" for a
    using restset that by (intro filter_Addr_none) auto
  have f_tl: "filter (\<lambda>e. Addr e = a6) tl = []" "filter (\<lambda>e. Addr e = a4) tl = []"
    using tl by (auto intro!: filter_Addr_none)
  have "filter (\<lambda>e. Addr e = a6) (DefaultDialRanker srt rel priv addrs) =
          [\<lparr>Addr = a6, Delay = 0\<rparr>]"
    unfolding ddr pub using ne f_pvt[OF np(1)] f_rel[OF np(3)] f_rest[OF np(5)] f_tl(1)
    by simp
  moreover have "filter (\<lambda>e. Addr e = a4) (DefaultDialRanker srt rel priv addrs) =
          [\<lparr>Addr = a4, Delay = PublicQUICDelay\<rparr>]"
    unfolding ddr pub using ne f_pvt[OF np(2)] f_rel[OF np(4)] f_rest[OF np(6)] f_tl(2)
    by simp
  ultimately show ?thesis by simp
qed

theorem DefaultDialRanker_happy_eyeballs_witness:
  "filter (\<lambda>e. Addr e = q1v16)
     (DefaultDialRanker sortByScore isRelayAddr isPrivateByPrefix [t1, q2v1, onion1, q1v16]) =
     [\<lparr>Addr = q1v16, Delay = 0\<rparr>] \<and>
   filter (\<lambda>e. Addr e = q2v1)
     (DefaultDialRanker sortByScore isRelayAddr isPrivateByPrefix [t1, q2v1, onion1, q1v16]) =
     [\<lparr>Addr = q2v1, Delay = PublicQUICDelay\<rparr>]"
proof -
  let ?in = "[t1, q2v1, onion1, q1v16]"
  have a6: "isPublicDirect isRelayAddr isPrivateByPrefix q1v16" "isQUICAddr q1v16"
    "isProtocolAddr q1v16 P_IP6" "\<not> isProtocolAddr q1v16 P_IP4"
    "\<not> isProtocolAddr q1v16 P_WEBTRANSPORT"
    by code_simp+
  have a4: "isPublicDirect isRelayAddr isPrivateByPrefix q2v1" "isQUICAddr q2v1"
    "isProtocolAddr q2v1 P_IP4"
    by code_simp+
  have once: "count (mset ?in) q1v16 = 1" "count (mset ?in) q2v1 = 1"
    by code_simp+
  have only: "\<forall>x\<in>set ?in. isPublicDirect isRelayAddr isPrivateByPrefix x \<and> isQUICAddr x
                \<longrightarrow> x = q1v16 \<or> x = q2v1"
    by code_simp
  have ports: "\<forall>x\<in>set ?in. isPublicDirect isRelayAddr isPrivateByPrefix x \<longrightarrow> validPorts x"
    by code_simp
  show ?thesis
    by (rule DefaultDialRanker_happy_eyeballs[OF sortByScore_ok a6 a4 once only ports])
qed


section \<open>Addresses that are neither QUIC nor TCP\<close>

definition otherKind :: "multiaddr \<Rightarrow> bool" where
  "otherKind a = (\<not> isQUICAddr a \<and> \<not> isProtocolAddr a P_TCP)"

definition rankedPart ::
  "(multiaddr list \<Rightarrow> multiaddr list) \<Rightarrow> (multiaddr \<Rightarrow> bool) \<Rightarrow> (multiaddr \<Rightarrow> bool)
   \<Rightarrow> multiaddr list \<Rightarrow> AddrDelay list" where
  "rankedPart srt rel priv addrs =
     (let (relay, pvt, public, rest) = partitionAddrs rel priv addrs
      in rankedGroups srt relay pvt public)"

definition restPart ::
  "(multiaddr \<Rightarrow> bool) \<Rightarrow> (multiaddr \<Rightarrow> bool) \<Rightarrow> multiaddr list \<Rightarrow> multiaddr list" where
  "restPart rel priv addrs =
     (let (relay, pvt, public, rest) = partitionAddrs rel priv addrs in rest)"

text \<open>
  The last entry of a ranked list whose address is a QUIC or TCP address, if there is one.
\<close>

fun prevQT :: "AddrDelay list \<Rightarrow> AddrDelay option" where
  "prevQT [] = None"
| "prevQT (e # es) =
     (case prevQT es of
        Some e' \<Rightarrow> Some e'
      | None \<Rightarrow> if otherKind (Addr e) then None else Some e)"

lemma filterAddrs_single:
  "filterAddrs f [a] = (if f a then ([a], []) else ([], [a]))"
  by (simp add: filterAddrs_def filterLoop.simps[of f _ 0 0]
      filterLoop.simps[of f _ "Suc 0" "Suc 0"] filterLoop.simps[of f _ "Suc 0" 0])

lemma filterAddrs_Nil: "filterAddrs f [] = ([], [])"
  by (simp add: filterAddrs_def filterLoop.simps[of f _ 0 0])

lemma getAddrDelay_Nil: "getAddrDelay srt [] td qd od off = []"
  by (simp add: getAddrDelay_def)

lemma getAddrDelay_single_other:
  assumes "sortSlice_ok srt" "otherKind a"
  shows "getAddrDelay srt [a] td qd od off = [\<lparr>Addr = a, Delay = off + od\<rparr>]"
proof -
  from assms(1) have "mset (srt [a]) = mset [a]" by (simp add: sortSlice_ok_def)
  then have s: "srt [a] = [a]" by simp
  from assms(2) have nq: "\<not> isQUICAddr a" and nt: "\<not> isProtocolAddr a P_TCP"
    by (simp_all add: otherKind_def)
  have hq: "happyQUIC [a] = ([a], False, 0)"
    using nq by (simp add: happyQUIC_def)
  have ts: "tcpStart [a] 0 = Suc 0"
    using nt by (simp add: tcpStart_def findFrom.simps[of _ "[a]" 0]
        findFrom.simps[of _ "[a]" "Suc 0"])
  have ht: "happyTCP [a] (Suc 0) = ([a], False)"
    by (simp add: happyTCP_def)
  show ?thesis
    using nq nt by (simp add: getAddrDelay_def s hq ts ht)
qed


lemma delayLoop_length: "length (delayLoop td qd od off hq ht ts i xs tf lq) = length xs"
  by (metis delayLoop_Addr length_map)

lemma delayLoop_other:
  assumes "n < length xs" "otherKind (xs ! n)"
  shows "Delay (delayLoop td qd od off hq ht ts i xs tf lq ! n) =
           (case prevQT (take n (delayLoop td qd od off hq ht ts i xs tf lq)) of
              None \<Rightarrow> off + lq
            | Some e \<Rightarrow> Delay e) + od"
  using assms
proof (induction xs arbitrary: i tf lq n)
  case Nil
  then show ?case by simp
next
  case (Cons x xs)
  show ?case
  proof (cases n)
    case 0
    with Cons.prems show ?thesis by (simp add: otherKind_def)
  next
    case (Suc m)
    with Cons.prems have m: "m < length xs" "otherKind (xs ! m)" by simp_all
    note ih = Cons.IH[OF m]
    show ?thesis
    proof (cases "isQUICAddr x")
      case True
      then show ?thesis using Suc ih
        by (simp add: Let_def otherKind_def split: option.splits)
    next
      case nq: False
      show ?thesis
      proof (cases "isProtocolAddr x P_TCP")
        case True
        with nq show ?thesis using Suc ih
          by (simp add: Let_def otherKind_def split: option.splits)
      next
        case False
        with nq show ?thesis using Suc ih
          by (simp add: Let_def otherKind_def split: option.splits)
      qed
    qed
  qed
qed

lemma getAddrDelay_other:
  assumes "n < length (getAddrDelay srt g td qd od off)"
    "otherKind (Addr (getAddrDelay srt g td qd od off ! n))"
  shows "Delay (getAddrDelay srt g td qd od off ! n) =
           (case prevQT (take n (getAddrDelay srt g td qd od off)) of
              None \<Rightarrow> off
            | Some e \<Rightarrow> Delay e) + od"
proof (cases "g = []")
  case True
  with assms show ?thesis by (simp add: getAddrDelay_def)
next
  case False
  obtain a1 hq i where q: "happyQUIC (srt g) = (a1, hq, i)"
    by (cases "happyQUIC (srt g)") auto
  obtain a2 ht where t: "happyTCP a1 (tcpStart a1 i) = (a2, ht)"
    by (cases "happyTCP a1 (tcpStart a1 i)") auto
  have eq: "getAddrDelay srt g td qd od off =
      delayLoop td qd od off hq ht (tcpStart a1 i) 0 a2 0 0"
    using False q t by (simp add: getAddrDelay_def)
  have n: "n < length a2" using assms(1) eq by (simp add: delayLoop_length)
  have "map Addr (delayLoop td qd od off hq ht (tcpStart a1 i) 0 a2 0 0) ! n = a2 ! n"
    by (simp add: delayLoop_Addr)
  then have "Addr (delayLoop td qd od off hq ht (tcpStart a1 i) 0 a2 0 0 ! n) = a2 ! n"
    using n by (simp add: delayLoop_length)
  with assms(2) eq have o: "otherKind (a2 ! n)" by simp
  show ?thesis
    unfolding eq using delayLoop_other[OF n o, of td qd od off hq ht "tcpStart a1 i" 0 0 0]
    by (simp split: option.splits)
qed

lemma DefaultDialRanker_single_other:
  assumes "sortSlice_ok srt" "otherKind a"
  shows "DefaultDialRanker srt rel priv [a] =
           [\<lparr>Addr = a,
             Delay = (if \<not> rel a \<and> priv a then PrivateOtherDelay else PublicOtherDelay)\<rparr>]"
  using assms
  by (simp add: DefaultDialRanker_def partitionAddrs_def filterAddrs_single filterAddrs_Nil
      rankedGroups_def getAddrDelay_Nil getAddrDelay_single_other)

lemma DefaultDialRanker_parts:
  "DefaultDialRanker srt rel priv addrs =
     rankedPart srt rel priv addrs @
     map (\<lambda>a. \<lparr>Addr = a,
                Delay = (if rankedPart srt rel priv addrs = [] then 0
                         else Delay (last (rankedPart srt rel priv addrs))) +
                        PublicOtherDelay\<rparr>) (restPart rel priv addrs)"
proof -
  obtain relay pvt public rest where
    part: "partitionAddrs rel priv addrs = (relay, pvt, public, rest)"
    by (cases "partitionAddrs rel priv addrs") auto
  have "rankedPart srt rel priv addrs = rankedGroups srt relay pvt public"
    "restPart rel priv addrs = rest"
    using part by (simp_all add: rankedPart_def restPart_def)
  with DefaultDialRanker_unfold[OF part, of srt] show ?thesis by simp
qed

lemma restPart_mset:
  "mset (restPart rel priv addrs) =
     filter_mset (\<lambda>a. \<not> rel a \<and> \<not> priv a \<and> \<not> hasIP a) (mset addrs)"
proof -
  obtain relay pvt public rest where
    part: "partitionAddrs rel priv addrs = (relay, pvt, public, rest)"
    by (cases "partitionAddrs rel priv addrs") auto
  have "restPart rel priv addrs = rest"
    using part by (simp add: restPart_def)
  with partitionAddrs_spec(4)[OF part] show ?thesis by simp
qed

text \<open>
  Claim C6, as amended. (1) Inside a ranked group an address that is neither QUIC nor TCP
  gets the delay of the last QUIC or TCP address ranked before it in the group plus the
  group's ``other'' delay, and the group offset plus the ``other'' delay when there is
  none before it. (2) The addresses that are neither relay nor private and have no IP
  component are appended after the ranked groups, all with one delay: \<^verbatim>\<open>PublicOtherDelay\<close>
  when nothing was ranked before them and, whenever the last ranked entry carries the
  maximum of the ranked delays, that maximum plus \<^verbatim>\<open>PublicOtherDelay\<close>. (3) An address that
  is neither QUIC nor TCP and is the only candidate is delayed as well: by
  \<^verbatim>\<open>PublicOtherDelay\<close>, or by \<^verbatim>\<open>PrivateOtherDelay\<close> when it is private and not a relay address.
\<close>

theorem DefaultDialRanker_other_delay:
  assumes ok: "sortSlice_ok srt"
  shows
    "(\<forall>n < length (getAddrDelay srt g td qd od off).
        otherKind (Addr (getAddrDelay srt g td qd od off ! n)) \<longrightarrow>
        Delay (getAddrDelay srt g td qd od off ! n) =
          (case prevQT (take n (getAddrDelay srt g td qd od off)) of
             None \<Rightarrow> off
           | Some e \<Rightarrow> Delay e) + od) \<and>
     take (length (rankedPart srt rel priv addrs)) (DefaultDialRanker srt rel priv addrs) =
       rankedPart srt rel priv addrs \<and>
     map Addr (drop (length (rankedPart srt rel priv addrs))
                 (DefaultDialRanker srt rel priv addrs)) = restPart rel priv addrs \<and>
     mset (restPart rel priv addrs) =
       filter_mset (\<lambda>a. \<not> rel a \<and> \<not> priv a \<and> \<not> hasIP a) (mset addrs) \<and>
     (rankedPart srt rel priv addrs = [] \<longrightarrow>
        DefaultDialRanker srt rel priv addrs =
          map (\<lambda>a. \<lparr>Addr = a, Delay = PublicOtherDelay\<rparr>) (restPart rel priv addrs)) \<and>
     (rankedPart srt rel priv addrs \<noteq> [] \<and>
      Delay (last (rankedPart srt rel priv addrs)) =
        Max (Delay ` set (rankedPart srt rel priv addrs)) \<longrightarrow>
        DefaultDialRanker srt rel priv addrs =
          rankedPart srt rel priv addrs @
          map (\<lambda>a. \<lparr>Addr = a,
                     Delay = Max (Delay ` set (rankedPart srt rel priv addrs)) +
                             PublicOtherDelay\<rparr>) (restPart rel priv addrs)) \<and>
     (otherKind a \<longrightarrow>
        DefaultDialRanker srt rel priv [a] =
          [\<lparr>Addr = a,
            Delay = (if \<not> rel a \<and> priv a then PrivateOtherDelay else PublicOtherDelay)\<rparr>])"
proof -
  let ?D = "DefaultDialRanker srt rel priv addrs"
  let ?G = "rankedPart srt rel priv addrs"
  let ?R = "restPart rel priv addrs"
  note parts = DefaultDialRanker_parts[of srt rel priv addrs]
  have c1: "\<forall>n < length (getAddrDelay srt g td qd od off).
        otherKind (Addr (getAddrDelay srt g td qd od off ! n)) \<longrightarrow>
        Delay (getAddrDelay srt g td qd od off ! n) =
          (case prevQT (take n (getAddrDelay srt g td qd od off)) of
             None \<Rightarrow> off
           | Some e \<Rightarrow> Delay e) + od"
    using getAddrDelay_other by blast
  have c2: "take (length ?G) ?D = ?G"
    by (subst parts) simp
  have c3: "map Addr (drop (length ?G) ?D) = ?R"
    by (subst parts) (simp add: comp_def)
  have c4: "mset ?R = filter_mset (\<lambda>a. \<not> rel a \<and> \<not> priv a \<and> \<not> hasIP a) (mset addrs)"
    by (rule restPart_mset)
  have c5: "?G = [] \<longrightarrow> ?D = map (\<lambda>a. \<lparr>Addr = a, Delay = PublicOtherDelay\<rparr>) ?R"
  proof
    assume "?G = []"
    with parts show "?D = map (\<lambda>a. \<lparr>Addr = a, Delay = PublicOtherDelay\<rparr>) ?R" by simp
  qed
  have c6: "?G \<noteq> [] \<and> Delay (last ?G) = Max (Delay ` set ?G) \<longrightarrow>
      ?D = ?G @ map (\<lambda>a. \<lparr>Addr = a, Delay = Max (Delay ` set ?G) + PublicOtherDelay\<rparr>) ?R"
  proof
    assume "?G \<noteq> [] \<and> Delay (last ?G) = Max (Delay ` set ?G)"
    with parts show
      "?D = ?G @ map (\<lambda>a. \<lparr>Addr = a, Delay = Max (Delay ` set ?G) + PublicOtherDelay\<rparr>) ?R"
      by simp
  qed
  have c7: "otherKind a \<longrightarrow> DefaultDialRanker srt rel priv [a] =
      [\<lparr>Addr = a,
        Delay = (if \<not> rel a \<and> priv a then PrivateOtherDelay else PublicOtherDelay)\<rparr>]"
    using DefaultDialRanker_single_other[OF ok] by blast
  from c1 c2 c3 c4 c5 c6 c7 show ?thesis by blast
qed

theorem DefaultDialRanker_other_delay_witness:
  "Delay (getAddrDelay sortByScore [q1v1, t1, wrtc1]
            PublicTCPDelay PublicQUICDelay PublicOtherDelay 0 ! 2) = 1250000000 \<and>
   DefaultDialRanker sortByScore isRelayAddr isPrivateByPrefix [q1v1, q2v1, onion1] =
     [\<lparr>Addr = q1v1, Delay = 0\<rparr>, \<lparr>Addr = q2v1, Delay = 250000000\<rparr>,
      \<lparr>Addr = onion1, Delay = 1250000000\<rparr>] \<and>
   DefaultDialRanker sortByScore isRelayAddr isPrivateByPrefix [wrtc1] =
     [\<lparr>Addr = wrtc1, Delay = 1000000000\<rparr>]"
proof -
  let ?g = "getAddrDelay sortByScore [q1v1, t1, wrtc1]
              PublicTCPDelay PublicQUICDelay PublicOtherDelay 0"
  let ?in = "[q1v1, q2v1, onion1]"
  let ?G = "rankedPart sortByScore isRelayAddr isPrivateByPrefix ?in"
  let ?R = "restPart isRelayAddr isPrivateByPrefix ?in"
  note t = DefaultDialRanker_other_delay[OF sortByScore_ok,
      of "[q1v1, t1, wrtc1]" PublicTCPDelay PublicQUICDelay PublicOtherDelay 0
         isRelayAddr isPrivateByPrefix ?in wrtc1]
  have n: "2 < length ?g" by code_simp
  have o: "otherKind (Addr (?g ! 2))" by code_simp
  from t n o have "Delay (?g ! 2) =
      (case prevQT (take 2 ?g) of None \<Rightarrow> 0 | Some e \<Rightarrow> Delay e) + PublicOtherDelay"
    by blast
  also have "\<dots> = 1250000000" by code_simp
  finally have w1: "Delay (?g ! 2) = 1250000000" .
  have h: "?G \<noteq> [] \<and> Delay (last ?G) = Max (Delay ` set ?G)" by code_simp
  with t have "DefaultDialRanker sortByScore isRelayAddr isPrivateByPrefix ?in =
      ?G @ map (\<lambda>a. \<lparr>Addr = a, Delay = Max (Delay ` set ?G) + PublicOtherDelay\<rparr>) ?R"
    by blast
  also have "\<dots> = [\<lparr>Addr = q1v1, Delay = 0\<rparr>, \<lparr>Addr = q2v1, Delay = 250000000\<rparr>,
      \<lparr>Addr = onion1, Delay = 1250000000\<rparr>]"
    by code_simp
  finally have w2: "DefaultDialRanker sortByScore isRelayAddr isPrivateByPrefix ?in =
      [\<lparr>Addr = q1v1, Delay = 0\<rparr>, \<lparr>Addr = q2v1, Delay = 250000000\<rparr>,
       \<lparr>Addr = onion1, Delay = 1250000000\<rparr>]" .
  have k: "otherKind wrtc1" by code_simp
  with t have "DefaultDialRanker sortByScore isRelayAddr isPrivateByPrefix [wrtc1] =
      [\<lparr>Addr = wrtc1,
        Delay = (if \<not> isRelayAddr wrtc1 \<and> isPrivateByPrefix wrtc1 then PrivateOtherDelay
                 else PublicOtherDelay)\<rparr>]"
    by blast
  also have "\<dots> = [\<lparr>Addr = wrtc1, Delay = 1000000000\<rparr>]" by code_simp
  finally have w3: "DefaultDialRanker sortByScore isRelayAddr isPrivateByPrefix [wrtc1] =
      [\<lparr>Addr = wrtc1, Delay = 1000000000\<rparr>]" .
  from w1 w2 w3 show ?thesis by blast
qed

text \<open>
  The claim as first stated exempts an address that is the only candidate from any delay.
  The ranker's own test \<^verbatim>\<open>only-non-ip-addr\<close> expects one second, and so does the code.
\<close>

theorem DefaultDialRanker_sole_other_counterexample:
  "DefaultDialRanker sortByScore isRelayAddr isPrivateByPrefix [onion1] =
     [\<lparr>Addr = onion1, Delay = 1000000000\<rparr>] \<and>
   Delay (hd (DefaultDialRanker sortByScore isRelayAddr isPrivateByPrefix [onion1])) \<noteq> 0"
  by code_simp

text \<open>
  \<^verbatim>\<open>maxDelay\<close> is read off the last entry of \<^verbatim>\<open>res\<close>, which need not carry the largest
  delay: here the public TCP addresses reach 750 ms, the relay address that ends the list
  has 500 ms, and the onion address is placed at 1500 ms.
\<close>

lemma DefaultDialRanker_last_not_max:
  "map Delay (DefaultDialRanker sortByScore isRelayAddr isPrivateByPrefix
     [q1v1, t1v6, t2, t3, r1, onion1]) =
     [0, 250000000, 500000000, 750000000, 500000000, 1500000000]"
  by code_simp


section \<open>Streams of a connection and the release of their resource scopes\<close>

datatype direction = DirInbound | DirOutbound

text \<open>
  A \<^verbatim>\<open>Stream\<close> object: the two flags guarded by \<^verbatim>\<open>closeMx\<close>, and the number of
  \<^verbatim>\<open>Done\<close> calls its resource scope has received.
\<close>

record stream_state =
  isClosed :: bool
  acceptStreamGoroutineCompleted :: bool
  scopeDone :: nat

text \<open>
  A connection with the \<^verbatim>\<open>Stream\<close> objects created on it (by address), its live-stream
  set \<^verbatim>\<open>streams.m\<close> (\<open>None\<close> is the nil map that \<^verbatim>\<open>doClose\<close> leaves),
  \<^verbatim>\<open>stat.NumStreams\<close>, the swarm's reference counter, and the scopes released by a caller
  whose \<^verbatim>\<open>addStream\<close> failed.
\<close>

record conn_state =
  heap :: "nat \<rightharpoonup> stream_state"
  streams_m :: "nat set option"
  numStreams :: int
  refs :: int
  unaddedDone :: "nat \<Rightarrow> nat"

datatype conn_error = ErrConnClosed

definition removeStream :: "conn_state \<Rightarrow> nat \<Rightarrow> conn_state" where
  "removeStream c s =
     c\<lparr>numStreams := numStreams c - 1,
       streams_m := map_option (\<lambda>m. m - {s}) (streams_m c),
       heap := (case heap c s of
                  None \<Rightarrow> heap c
                | Some st \<Rightarrow> (heap c)(s \<mapsto> st\<lparr>scopeDone := scopeDone st + 1\<rparr>))\<rparr>"

definition closeAndRemoveStream :: "conn_state \<Rightarrow> nat \<Rightarrow> conn_state" where
  "closeAndRemoveStream c s =
     (case heap c s of
        None \<Rightarrow> c
      | Some st \<Rightarrow>
          if isClosed st then c
          else
            (let c1 = c\<lparr>heap := (heap c)(s \<mapsto> st\<lparr>isClosed := True\<rparr>), refs := refs c - 1\<rparr>
             in if acceptStreamGoroutineCompleted st then removeStream c1 s else c1))"

definition completeAcceptStreamGoroutine :: "conn_state \<Rightarrow> nat \<Rightarrow> conn_state" where
  "completeAcceptStreamGoroutine c s =
     (case heap c s of
        None \<Rightarrow> c
      | Some st \<Rightarrow>
          if acceptStreamGoroutineCompleted st then c
          else
            (let c1 = c\<lparr>heap := (heap c)(s \<mapsto> st\<lparr>acceptStreamGoroutineCompleted := True\<rparr>)\<rparr>
             in if isClosed st then removeStream c1 s else c1))"

text \<open>
  \<^verbatim>\<open>Close\<close>, \<^verbatim>\<open>Reset\<close> and \<^verbatim>\<open>ResetWithError\<close> call the multiplexer's stream first, whose
  result they return, and then \<^verbatim>\<open>closeAndRemoveStream\<close>.
\<close>

definition Close :: "conn_state \<Rightarrow> nat \<Rightarrow> conn_state" where
  "Close c s = closeAndRemoveStream c s"

definition Reset :: "conn_state \<Rightarrow> nat \<Rightarrow> conn_state" where
  "Reset c s = closeAndRemoveStream c s"

definition ResetWithError :: "conn_state \<Rightarrow> nat \<Rightarrow> nat \<Rightarrow> conn_state" where
  "ResetWithError c s errCode = closeAndRemoveStream c s"

text \<open>\<^verbatim>\<open>addStream\<close> for a new \<^verbatim>\<open>Stream\<close> object at address \<open>s\<close>.\<close>

definition addStream :: "conn_state \<Rightarrow> nat \<Rightarrow> direction \<Rightarrow> conn_error + conn_state" where
  "addStream c s dir =
     (case streams_m c of
        None \<Rightarrow> Inl ErrConnClosed
      | Some m \<Rightarrow>
          Inr (c\<lparr>heap := (heap c)(s \<mapsto>
                     \<lparr>isClosed = False,
                      acceptStreamGoroutineCompleted = (dir \<noteq> DirInbound),
                      scopeDone = 0\<rparr>),
                 numStreams := numStreams c + 1,
                 streams_m := Some (insert s m),
                 refs := refs c + 1\<rparr>))"

text \<open>
  What can happen to a connection's streams. The callers of \<^verbatim>\<open>addStream\<close> (the accept
  loop of \<^verbatim>\<open>start\<close>, and \<^verbatim>\<open>NewStream\<close>) release the scope themselves when it fails.
  \<^verbatim>\<open>ConnNilStreams\<close> is the step of \<^verbatim>\<open>doClose\<close> that replaces \<^verbatim>\<open>streams.m\<close> by nil;
  the \<^verbatim>\<open>Reset\<close> calls that follow it are events of their own.
  Each method body runs under \<^verbatim>\<open>closeMx\<close> of its stream, so the calls on one stream
  happen one after the other, in some order: an event list.
\<close>

datatype stream_event =
    EvAddStream nat direction
  | EvClose nat
  | EvReset nat
  | EvResetWithError nat nat
  | EvCompleteAccept nat
  | EvConnNilStreams

text \<open>An event on a stream needs the stream (\<open>None\<close> otherwise); a new stream is a new object.\<close>

definition stream_step :: "conn_state \<Rightarrow> stream_event \<Rightarrow> conn_state option" where
  "stream_step c ev =
     (case ev of
        EvAddStream s dir \<Rightarrow>
          if heap c s \<noteq> None \<or> unaddedDone c s \<noteq> 0 then None
          else (case addStream c s dir of
                  Inl e \<Rightarrow> Some (c\<lparr>unaddedDone := (unaddedDone c)(s := unaddedDone c s + 1)\<rparr>)
                | Inr c' \<Rightarrow> Some c')
      | EvClose s \<Rightarrow> if heap c s = None then None else Some (Close c s)
      | EvReset s \<Rightarrow> if heap c s = None then None else Some (Reset c s)
      | EvResetWithError s code \<Rightarrow>
          if heap c s = None then None else Some (ResetWithError c s code)
      | EvCompleteAccept s \<Rightarrow>
          if heap c s = None then None else Some (completeAcceptStreamGoroutine c s)
      | EvConnNilStreams \<Rightarrow> Some (c\<lparr>streams_m := None\<rparr>))"

fun stream_run :: "conn_state \<Rightarrow> stream_event list \<Rightarrow> conn_state option" where
  "stream_run c [] = Some c"
| "stream_run c (ev # evs) =
     (case stream_step c ev of None \<Rightarrow> None | Some c' \<Rightarrow> stream_run c' evs)"

definition conn_init :: conn_state where
  "conn_init = \<lparr>heap = Map.empty, streams_m = Some {}, numStreams = 0, refs = 0,
                 unaddedDone = (\<lambda>_. 0)\<rparr>"

definition isLive :: "conn_state \<Rightarrow> nat \<Rightarrow> bool" where
  "isLive c s = (case streams_m c of None \<Rightarrow> False | Some m \<Rightarrow> s \<in> m)"

definition scope_inv :: "conn_state \<Rightarrow> bool" where
  "scope_inv c =
     (\<forall>s st. heap c s = Some st \<longrightarrow>
        scopeDone st = (if isClosed st \<and> acceptStreamGoroutineCompleted st then 1 else 0) \<and>
        (isClosed st \<and> acceptStreamGoroutineCompleted st \<longrightarrow> \<not> isLive c s))"

lemma scope_inv_init: "scope_inv conn_init"
  by (simp add: scope_inv_def conn_init_def)

lemma heap_removeStream:
  "heap (removeStream c s) s' =
     (if s' = s then map_option (\<lambda>st. st\<lparr>scopeDone := scopeDone st + 1\<rparr>) (heap c s)
      else heap c s')"
  by (simp add: removeStream_def split: option.splits)

lemma isLive_removeStream: "isLive (removeStream c s) s' = (isLive c s' \<and> s' \<noteq> s)"
  by (auto simp: removeStream_def isLive_def split: option.splits)

lemma isLive_heap_update [simp]: "isLive (c\<lparr>heap := h\<rparr>) s = isLive c s"
  by (simp add: isLive_def)

lemma isLive_refs_update [simp]: "isLive (c\<lparr>refs := r\<rparr>) s = isLive c s"
  by (simp add: isLive_def)

lemma scope_inv_closeAndRemoveStream:
  assumes "scope_inv c"
  shows "scope_inv (closeAndRemoveStream c s)"
proof (cases "heap c s")
  case None
  with assms show ?thesis by (simp add: closeAndRemoveStream_def)
next
  case (Some st)
  from assms Some have st: "scopeDone st = (if isClosed st \<and> acceptStreamGoroutineCompleted st then 1 else 0)"
    unfolding scope_inv_def by blast
  show ?thesis
  proof (cases "isClosed st")
    case True
    with assms Some show ?thesis by (simp add: closeAndRemoveStream_def)
  next
    case False
    show ?thesis
      unfolding scope_inv_def
    proof (intro allI impI)
      fix s' st'
      assume h: "heap (closeAndRemoveStream c s) s' = Some st'"
      show "scopeDone st' = (if isClosed st' \<and> acceptStreamGoroutineCompleted st' then 1 else 0) \<and>
            (isClosed st' \<and> acceptStreamGoroutineCompleted st' \<longrightarrow>
               \<not> isLive (closeAndRemoveStream c s) s')"
      proof (cases "s' = s")
        case True
        with h Some False st show ?thesis
          by (auto simp: closeAndRemoveStream_def Let_def heap_removeStream isLive_removeStream
              split: if_splits)
      next
        case ne: False
        with h Some False have "heap c s' = Some st'"
          by (auto simp: closeAndRemoveStream_def Let_def heap_removeStream split: if_splits)
        with assms have "scopeDone st' = (if isClosed st' \<and> acceptStreamGoroutineCompleted st' then 1 else 0) \<and>
            (isClosed st' \<and> acceptStreamGoroutineCompleted st' \<longrightarrow> \<not> isLive c s')"
          unfolding scope_inv_def by blast
        moreover have "isLive (closeAndRemoveStream c s) s' \<longrightarrow> isLive c s'"
          using Some False by (auto simp: closeAndRemoveStream_def Let_def isLive_removeStream)
        ultimately show ?thesis by blast
      qed
    qed
  qed
qed

lemma scope_inv_completeAccept:
  assumes "scope_inv c"
  shows "scope_inv (completeAcceptStreamGoroutine c s)"
proof (cases "heap c s")
  case None
  with assms show ?thesis by (simp add: completeAcceptStreamGoroutine_def)
next
  case (Some st)
  from assms Some have st: "scopeDone st = (if isClosed st \<and> acceptStreamGoroutineCompleted st then 1 else 0)"
    unfolding scope_inv_def by blast
  show ?thesis
  proof (cases "acceptStreamGoroutineCompleted st")
    case True
    with assms Some show ?thesis by (simp add: completeAcceptStreamGoroutine_def)
  next
    case False
    show ?thesis
      unfolding scope_inv_def
    proof (intro allI impI)
      fix s' st'
      assume h: "heap (completeAcceptStreamGoroutine c s) s' = Some st'"
      show "scopeDone st' = (if isClosed st' \<and> acceptStreamGoroutineCompleted st' then 1 else 0) \<and>
            (isClosed st' \<and> acceptStreamGoroutineCompleted st' \<longrightarrow>
               \<not> isLive (completeAcceptStreamGoroutine c s) s')"
      proof (cases "s' = s")
        case True
        with h Some False st show ?thesis
          by (auto simp: completeAcceptStreamGoroutine_def Let_def heap_removeStream
              isLive_removeStream split: if_splits)
      next
        case ne: False
        with h Some False have "heap c s' = Some st'"
          by (auto simp: completeAcceptStreamGoroutine_def Let_def heap_removeStream
              split: if_splits)
        with assms have "scopeDone st' = (if isClosed st' \<and> acceptStreamGoroutineCompleted st' then 1 else 0) \<and>
            (isClosed st' \<and> acceptStreamGoroutineCompleted st' \<longrightarrow> \<not> isLive c s')"
          unfolding scope_inv_def by blast
        moreover have "isLive (completeAcceptStreamGoroutine c s) s' \<longrightarrow> isLive c s'"
          using Some False
          by (auto simp: completeAcceptStreamGoroutine_def Let_def isLive_removeStream)
        ultimately show ?thesis by blast
      qed
    qed
  qed
qed

lemma scope_inv_addStream:
  assumes "scope_inv c" "heap c s = None" "addStream c s dir = Inr c'"
  shows "scope_inv c'"
proof -
  from assms(3) obtain m where m: "streams_m c = Some m"
    and c': "c' = c\<lparr>heap := (heap c)(s \<mapsto>
                     \<lparr>isClosed = False,
                      acceptStreamGoroutineCompleted = (dir \<noteq> DirInbound),
                      scopeDone = 0\<rparr>),
                 numStreams := numStreams c + 1,
                 streams_m := Some (insert s m),
                 refs := refs c + 1\<rparr>"
    by (auto simp: addStream_def split: option.splits)
  show ?thesis
    unfolding scope_inv_def
  proof (intro allI impI)
    fix s' st'
    assume h: "heap c' s' = Some st'"
    show "scopeDone st' = (if isClosed st' \<and> acceptStreamGoroutineCompleted st' then 1 else 0) \<and>
          (isClosed st' \<and> acceptStreamGoroutineCompleted st' \<longrightarrow> \<not> isLive c' s')"
    proof (cases "s' = s")
      case True
      with h c' show ?thesis by auto
    next
      case False
      with h c' have "heap c s' = Some st'" by simp
      with assms(1) have "scopeDone st' = (if isClosed st' \<and> acceptStreamGoroutineCompleted st' then 1 else 0) \<and>
          (isClosed st' \<and> acceptStreamGoroutineCompleted st' \<longrightarrow> \<not> isLive c s')"
        unfolding scope_inv_def by blast
      moreover have "isLive c' s' = isLive c s'"
        using False c' m by (simp add: isLive_def)
      ultimately show ?thesis by simp
    qed
  qed
qed

lemma scope_inv_step:
  assumes "scope_inv c" "stream_step c ev = Some c'"
  shows "scope_inv c'"
proof (cases ev)
  case (EvAddStream s dir)
  show ?thesis
  proof (cases "addStream c s dir")
    case (Inl e)
    with assms EvAddStream have "c' = c\<lparr>unaddedDone := (unaddedDone c)(s := unaddedDone c s + 1)\<rparr>"
      by (auto simp: stream_step_def split: if_splits)
    with assms(1) show ?thesis by (simp add: scope_inv_def isLive_def)
  next
    case (Inr c2)
    with assms EvAddStream have "c' = c2" "heap c s = None"
      by (auto simp: stream_step_def split: if_splits)
    with assms(1) Inr show ?thesis using scope_inv_addStream by blast
  qed
next
  case (EvClose s)
  with assms show ?thesis
    by (auto simp: stream_step_def Close_def scope_inv_closeAndRemoveStream split: if_splits)
next
  case (EvReset s)
  with assms show ?thesis
    by (auto simp: stream_step_def Reset_def scope_inv_closeAndRemoveStream split: if_splits)
next
  case (EvResetWithError s code)
  with assms show ?thesis
    by (auto simp: stream_step_def ResetWithError_def scope_inv_closeAndRemoveStream
        split: if_splits)
next
  case (EvCompleteAccept s)
  with assms show ?thesis
    by (auto simp: stream_step_def scope_inv_completeAccept split: if_splits)
next
  case EvConnNilStreams
  with assms show ?thesis
    unfolding scope_inv_def stream_step_def isLive_def by auto
qed

lemma scope_inv_run:
  "scope_inv c \<Longrightarrow> stream_run c evs = Some c' \<Longrightarrow> scope_inv c'"
  by (induction evs arbitrary: c) (auto split: option.splits dest: scope_inv_step)

fun isCloseEvent :: "nat \<Rightarrow> stream_event \<Rightarrow> bool" where
  "isCloseEvent s (EvClose s') = (s' = s)"
| "isCloseEvent s (EvReset s') = (s' = s)"
| "isCloseEvent s (EvResetWithError s' code) = (s' = s)"
| "isCloseEvent s _ = False"

text \<open>Some \<^verbatim>\<open>Close\<close>, \<^verbatim>\<open>Reset\<close> or \<^verbatim>\<open>ResetWithError\<close> of stream \<open>s\<close> has run.\<close>

definition closedBy :: "stream_event list \<Rightarrow> nat \<Rightarrow> bool" where
  "closedBy evs s = list_ex (isCloseEvent s) evs"

text \<open>
  Accept processing of stream \<open>s\<close> is complete: it was opened outbound, or
  \<^verbatim>\<open>completeAcceptStreamGoroutine\<close> has run.
\<close>

definition acceptCompleteBy :: "stream_event list \<Rightarrow> nat \<Rightarrow> bool" where
  "acceptCompleteBy evs s =
     list_ex (\<lambda>ev. ev = EvAddStream s DirOutbound \<or> ev = EvCompleteAccept s) evs"

definition flags_inv :: "conn_state \<Rightarrow> stream_event list \<Rightarrow> bool" where
  "flags_inv c evs =
     (\<forall>s. case heap c s of
            None \<Rightarrow> \<not> closedBy evs s \<and> EvCompleteAccept s \<notin> set evs \<and>
                    (unaddedDone c s = 0 \<longrightarrow> (\<forall>dir. EvAddStream s dir \<notin> set evs))
          | Some st \<Rightarrow> isClosed st = closedBy evs s \<and>
                       acceptStreamGoroutineCompleted st = acceptCompleteBy evs s)"

lemma closedBy_snoc: "closedBy (evs @ [ev]) s = (closedBy evs s \<or> isCloseEvent s ev)"
  by (simp add: closedBy_def)

lemma acceptCompleteBy_snoc:
  "acceptCompleteBy (evs @ [ev]) s =
     (acceptCompleteBy evs s \<or> ev = EvAddStream s DirOutbound \<or> ev = EvCompleteAccept s)"
  by (simp add: acceptCompleteBy_def)

lemma acceptCompleteBy_iff:
  "acceptCompleteBy evs s \<longleftrightarrow> EvAddStream s DirOutbound \<in> set evs \<or> EvCompleteAccept s \<in> set evs"
  by (auto simp: acceptCompleteBy_def list_ex_iff)

lemma heap_closeAndRemoveStream_same:
  assumes "heap c s = Some st"
  shows "\<exists>st'. heap (closeAndRemoveStream c s) s = Some st' \<and> isClosed st' \<and>
           acceptStreamGoroutineCompleted st' = acceptStreamGoroutineCompleted st"
  using assms
  by (auto simp: closeAndRemoveStream_def Let_def heap_removeStream)

lemma heap_closeAndRemoveStream_other:
  "s' \<noteq> s \<Longrightarrow> heap (closeAndRemoveStream c s) s' = heap c s'"
  by (auto simp: closeAndRemoveStream_def Let_def heap_removeStream split: option.splits)

lemma unaddedDone_removeStream [simp]: "unaddedDone (removeStream c s) = unaddedDone c"
  by (simp add: removeStream_def)

lemma unaddedDone_closeAndRemoveStream [simp]:
  "unaddedDone (closeAndRemoveStream c s) = unaddedDone c"
  by (auto simp: closeAndRemoveStream_def Let_def split: option.splits)

lemma heap_completeAccept_same:
  assumes "heap c s = Some st"
  shows "\<exists>st'. heap (completeAcceptStreamGoroutine c s) s = Some st' \<and>
           acceptStreamGoroutineCompleted st' \<and> isClosed st' = isClosed st"
  using assms
  by (auto simp: completeAcceptStreamGoroutine_def Let_def heap_removeStream)

lemma heap_completeAccept_other:
  "s' \<noteq> s \<Longrightarrow> heap (completeAcceptStreamGoroutine c s) s' = heap c s'"
  by (auto simp: completeAcceptStreamGoroutine_def Let_def heap_removeStream
      split: option.splits)

lemma unaddedDone_completeAccept [simp]:
  "unaddedDone (completeAcceptStreamGoroutine c s) = unaddedDone c"
  by (auto simp: completeAcceptStreamGoroutine_def Let_def split: option.splits)

lemma flags_inv_close:
  assumes inv: "flags_inv c evs" and h: "heap c s \<noteq> None" and ev: "isCloseEvent s ev"
    and other: "\<And>s'. s' \<noteq> s \<Longrightarrow> \<not> isCloseEvent s' ev"
    and na: "\<And>s' dir. ev \<noteq> EvAddStream s' dir" "\<And>s'. ev \<noteq> EvCompleteAccept s'"
  shows "flags_inv (closeAndRemoveStream c s) (evs @ [ev])"
  unfolding flags_inv_def
proof
  fix s'
  from h obtain st where st: "heap c s = Some st" by auto
  from inv have is': "case heap c s' of
            None \<Rightarrow> \<not> closedBy evs s' \<and> EvCompleteAccept s' \<notin> set evs \<and>
                    (unaddedDone c s' = 0 \<longrightarrow> (\<forall>dir. EvAddStream s' dir \<notin> set evs))
          | Some st \<Rightarrow> isClosed st = closedBy evs s' \<and>
                       acceptStreamGoroutineCompleted st = acceptCompleteBy evs s'"
    unfolding flags_inv_def by blast
  show "case heap (closeAndRemoveStream c s) s' of
            None \<Rightarrow> \<not> closedBy (evs @ [ev]) s' \<and> EvCompleteAccept s' \<notin> set (evs @ [ev]) \<and>
                    (unaddedDone (closeAndRemoveStream c s) s' = 0 \<longrightarrow>
                       (\<forall>dir. EvAddStream s' dir \<notin> set (evs @ [ev])))
          | Some st \<Rightarrow> isClosed st = closedBy (evs @ [ev]) s' \<and>
                       acceptStreamGoroutineCompleted st = acceptCompleteBy (evs @ [ev]) s'"
  proof (cases "s' = s")
    case True
    from heap_closeAndRemoveStream_same[OF st] obtain st' where
      st': "heap (closeAndRemoveStream c s) s = Some st'" "isClosed st'"
      "acceptStreamGoroutineCompleted st' = acceptStreamGoroutineCompleted st" by blast
    with True is' st ev na show ?thesis
      by (simp add: closedBy_snoc acceptCompleteBy_snoc)
  next
    case False
    with is' other[OF False] na na[THEN not_sym] show ?thesis
      by (simp add: heap_closeAndRemoveStream_other closedBy_snoc acceptCompleteBy_snoc
          split: option.splits)
  qed
qed

lemma flags_inv_step:
  assumes inv: "flags_inv c evs" and step: "stream_step c ev = Some c'"
  shows "flags_inv c' (evs @ [ev])"
proof (cases ev)
  case (EvClose s)
  with step have "heap c s \<noteq> None" "c' = closeAndRemoveStream c s"
    by (auto simp: stream_step_def Close_def split: if_splits)
  with flags_inv_close[OF inv this(1), of ev] EvClose show ?thesis by simp
next
  case (EvReset s)
  with step have "heap c s \<noteq> None" "c' = closeAndRemoveStream c s"
    by (auto simp: stream_step_def Reset_def split: if_splits)
  with flags_inv_close[OF inv this(1), of ev] EvReset show ?thesis by simp
next
  case (EvResetWithError s code)
  with step have "heap c s \<noteq> None" "c' = closeAndRemoveStream c s"
    by (auto simp: stream_step_def ResetWithError_def split: if_splits)
  with flags_inv_close[OF inv this(1), of ev] EvResetWithError show ?thesis by simp
next
  case (EvCompleteAccept s)
  with step have h: "heap c s \<noteq> None" and c': "c' = completeAcceptStreamGoroutine c s"
    by (auto simp: stream_step_def split: if_splits)
  from h obtain st where st: "heap c s = Some st" by auto
  show ?thesis
    unfolding flags_inv_def
  proof
    fix s'
    from inv have is': "case heap c s' of
            None \<Rightarrow> \<not> closedBy evs s' \<and> EvCompleteAccept s' \<notin> set evs \<and>
                    (unaddedDone c s' = 0 \<longrightarrow> (\<forall>dir. EvAddStream s' dir \<notin> set evs))
          | Some st \<Rightarrow> isClosed st = closedBy evs s' \<and>
                       acceptStreamGoroutineCompleted st = acceptCompleteBy evs s'"
      unfolding flags_inv_def by blast
    show "case heap c' s' of
            None \<Rightarrow> \<not> closedBy (evs @ [ev]) s' \<and> EvCompleteAccept s' \<notin> set (evs @ [ev]) \<and>
                    (unaddedDone c' s' = 0 \<longrightarrow> (\<forall>dir. EvAddStream s' dir \<notin> set (evs @ [ev])))
          | Some st \<Rightarrow> isClosed st = closedBy (evs @ [ev]) s' \<and>
                       acceptStreamGoroutineCompleted st = acceptCompleteBy (evs @ [ev]) s'"
    proof (cases "s' = s")
      case True
      from heap_completeAccept_same[OF st] obtain st' where
        "heap (completeAcceptStreamGoroutine c s) s = Some st'"
        "acceptStreamGoroutineCompleted st'" "isClosed st' = isClosed st" by blast
      with True is' st c' EvCompleteAccept show ?thesis
        by (simp add: closedBy_snoc acceptCompleteBy_snoc)
    next
      case False
      with is' c' EvCompleteAccept show ?thesis
        by (auto simp: heap_completeAccept_other closedBy_snoc acceptCompleteBy_snoc
            split: option.splits)
    qed
  qed
next
  case EvConnNilStreams
  with step have c': "c' = c\<lparr>streams_m := None\<rparr>" by (simp add: stream_step_def)
  show ?thesis
    unfolding flags_inv_def
  proof
    fix s'
    from inv have "case heap c s' of
            None \<Rightarrow> \<not> closedBy evs s' \<and> EvCompleteAccept s' \<notin> set evs \<and>
                    (unaddedDone c s' = 0 \<longrightarrow> (\<forall>dir. EvAddStream s' dir \<notin> set evs))
          | Some st \<Rightarrow> isClosed st = closedBy evs s' \<and>
                       acceptStreamGoroutineCompleted st = acceptCompleteBy evs s'"
      unfolding flags_inv_def by blast
    with c' EvConnNilStreams show "case heap c' s' of
            None \<Rightarrow> \<not> closedBy (evs @ [ev]) s' \<and> EvCompleteAccept s' \<notin> set (evs @ [ev]) \<and>
                    (unaddedDone c' s' = 0 \<longrightarrow> (\<forall>dir. EvAddStream s' dir \<notin> set (evs @ [ev])))
          | Some st \<Rightarrow> isClosed st = closedBy (evs @ [ev]) s' \<and>
                       acceptStreamGoroutineCompleted st = acceptCompleteBy (evs @ [ev]) s'"
      by (auto simp: closedBy_snoc acceptCompleteBy_snoc split: option.splits)
  qed
next
  case (EvAddStream s dir)
  with step have en: "heap c s = None" "unaddedDone c s = 0"
    by (auto simp: stream_step_def split: if_splits)
  from inv en have fresh: "\<not> closedBy evs s" "EvCompleteAccept s \<notin> set evs"
    "\<forall>d. EvAddStream s d \<notin> set evs"
    unfolding flags_inv_def by (auto dest!: spec[of _ s])
  then have nac: "\<not> acceptCompleteBy evs s" by (simp add: acceptCompleteBy_iff)
  show ?thesis
    unfolding flags_inv_def
  proof
    fix s'
    from inv have is': "case heap c s' of
            None \<Rightarrow> \<not> closedBy evs s' \<and> EvCompleteAccept s' \<notin> set evs \<and>
                    (unaddedDone c s' = 0 \<longrightarrow> (\<forall>dir. EvAddStream s' dir \<notin> set evs))
          | Some st \<Rightarrow> isClosed st = closedBy evs s' \<and>
                       acceptStreamGoroutineCompleted st = acceptCompleteBy evs s'"
      unfolding flags_inv_def by blast
    show "case heap c' s' of
            None \<Rightarrow> \<not> closedBy (evs @ [ev]) s' \<and> EvCompleteAccept s' \<notin> set (evs @ [ev]) \<and>
                    (unaddedDone c' s' = 0 \<longrightarrow> (\<forall>dir. EvAddStream s' dir \<notin> set (evs @ [ev])))
          | Some st \<Rightarrow> isClosed st = closedBy (evs @ [ev]) s' \<and>
                       acceptStreamGoroutineCompleted st = acceptCompleteBy (evs @ [ev]) s'"
    proof (cases "addStream c s dir")
      case (Inl e)
      with step EvAddStream en have c': "c' = c\<lparr>unaddedDone := (unaddedDone c)(s := unaddedDone c s + 1)\<rparr>"
        by (simp add: stream_step_def)
      show ?thesis
      proof (cases "s' = s")
        case True
        with c' en fresh EvAddStream show ?thesis
          by (simp add: closedBy_snoc)
      next
        case False
        with c' is' EvAddStream show ?thesis
          by (auto simp: closedBy_snoc acceptCompleteBy_snoc split: option.splits)
      qed
    next
      case (Inr c2)
      with step EvAddStream en have c': "c' = c2" by (simp add: stream_step_def)
      from Inr obtain m where c2: "c2 = c\<lparr>heap := (heap c)(s \<mapsto>
                     \<lparr>isClosed = False,
                      acceptStreamGoroutineCompleted = (dir \<noteq> DirInbound),
                      scopeDone = 0\<rparr>),
                 numStreams := numStreams c + 1,
                 streams_m := Some (insert s m),
                 refs := refs c + 1\<rparr>"
        by (auto simp: addStream_def split: option.splits)
      show ?thesis
      proof (cases "s' = s")
        case True
        have "(dir \<noteq> DirInbound) = (dir = DirOutbound)" by (cases dir) auto
        with True c' c2 fresh nac EvAddStream show ?thesis
          by (simp add: closedBy_snoc acceptCompleteBy_snoc)
      next
        case False
        with c' c2 is' EvAddStream show ?thesis
          by (auto simp: closedBy_snoc acceptCompleteBy_snoc split: option.splits)
      qed
    qed
  qed
qed

lemma flags_inv_run:
  "flags_inv c pre \<Longrightarrow> stream_run c evs = Some c' \<Longrightarrow> flags_inv c' (pre @ evs)"
proof (induction evs arbitrary: c pre)
  case Nil
  then show ?case by simp
next
  case (Cons ev evs)
  from Cons.prems(2) obtain c1 where c1: "stream_step c ev = Some c1" "stream_run c1 evs = Some c'"
    by (auto split: option.splits)
  from flags_inv_step[OF Cons.prems(1) c1(1)] have "flags_inv c1 (pre @ [ev])" .
  from Cons.IH[OF this c1(2)] show ?case by simp
qed

lemma flags_inv_init: "flags_inv conn_init []"
  by (simp add: flags_inv_def conn_init_def closedBy_def)

text \<open>
  Claim C1. After any sequence of stream events on a connection (any interleaving of
  \<^verbatim>\<open>Close\<close>, \<^verbatim>\<open>Reset\<close>, \<^verbatim>\<open>ResetWithError\<close> and \<^verbatim>\<open>completeAcceptStreamGoroutine\<close> calls, on
  any streams, with the connection closing in between or not), for every stream: \<^verbatim>\<open>isClosed\<close>
  is set exactly when some \<^verbatim>\<open>Close\<close>, \<^verbatim>\<open>Reset\<close> or \<^verbatim>\<open>ResetWithError\<close> has run on it; the
  accept flag is set exactly when the stream is outbound or
  \<^verbatim>\<open>completeAcceptStreamGoroutine\<close> has run on it; its scope has received exactly one
  \<^verbatim>\<open>Done\<close> when both hold and none otherwise; and when both hold the stream is no longer
  in the connection's live-stream set. As this holds after every event list, it holds at
  every moment of every run: the scope is never released before both conditions hold,
  never twice, and never left unreleased once they hold.
\<close>

theorem stream_scope_released_exactly_once:
  assumes run: "stream_run conn_init evs = Some c" and st: "heap c s = Some st"
  shows "isClosed st = closedBy evs s \<and>
         acceptStreamGoroutineCompleted st = acceptCompleteBy evs s \<and>
         scopeDone st = (if closedBy evs s \<and> acceptCompleteBy evs s then 1 else 0) \<and>
         (closedBy evs s \<and> acceptCompleteBy evs s \<longrightarrow> \<not> isLive c s)"
proof -
  from scope_inv_run[OF scope_inv_init run] st
  have a: "scopeDone st = (if isClosed st \<and> acceptStreamGoroutineCompleted st then 1 else 0)"
    and b: "isClosed st \<and> acceptStreamGoroutineCompleted st \<longrightarrow> \<not> isLive c s"
    unfolding scope_inv_def by blast+
  from flags_inv_run[OF flags_inv_init run] st
  have f: "isClosed st = closedBy evs s"
    "acceptStreamGoroutineCompleted st = acceptCompleteBy evs s"
    unfolding flags_inv_def by (auto dest!: spec[of _ s])
  from a b f show ?thesis by simp
qed

definition stream_trace1 :: "stream_event list" where
  "stream_trace1 =
     [EvAddStream 1 DirInbound, EvAddStream 2 DirOutbound, EvClose 1, EvReset 1,
      EvCompleteAccept 1, EvCompleteAccept 1, EvConnNilStreams, EvResetWithError 2 0,
      EvClose 1]"

lemmas stream_defs = stream_step_def addStream_def Close_def Reset_def ResetWithError_def
  closeAndRemoveStream_def completeAcceptStreamGoroutine_def removeStream_def conn_init_def

theorem stream_scope_released_exactly_once_witness:
  "stream_run conn_init stream_trace1 \<noteq> None \<and>
   heap (the (stream_run conn_init stream_trace1)) 1 \<noteq> None \<and>
   scopeDone (the (heap (the (stream_run conn_init stream_trace1)) 1)) = 1 \<and>
   \<not> isLive (the (stream_run conn_init stream_trace1)) 1"
proof -
  have r: "stream_run conn_init stream_trace1 \<noteq> None"
    by (simp add: stream_trace1_def stream_defs Let_def)
  then obtain c where c: "stream_run conn_init stream_trace1 = Some c" by auto
  have h: "heap (the (stream_run conn_init stream_trace1)) 1 \<noteq> None"
    by (simp add: stream_trace1_def stream_defs Let_def)
  with c obtain st where st: "heap c 1 = Some st" by auto
  have cl: "closedBy stream_trace1 1" "acceptCompleteBy stream_trace1 1"
    by (simp_all add: stream_trace1_def closedBy_def acceptCompleteBy_def)
  from stream_scope_released_exactly_once[OF c st] cl
  have "scopeDone st = 1" "\<not> isLive c 1" by simp_all
  with r h c st show ?thesis by simp
qed


section \<open>The dial synchroniser\<close>

datatype go_error = errConcurrentDialSuccessful | OtherError nat

text \<open>
  An \<^verbatim>\<open>activeDial\<close>: the reference count, the cause its context was cancelled with
  (\<open>None\<close> while it is not cancelled; a second \<^verbatim>\<open>cancelCause\<close> call would change
  nothing), and how often \<^verbatim>\<open>reqch\<close> has been closed.
\<close>

record activeDial =
  refCnt :: int
  cancelledWith :: "go_error option"
  reqchCloses :: nat

text \<open>
  \<^verbatim>\<open>dialSync\<close>: the registry \<^verbatim>\<open>dials\<close> from peers to \<^verbatim>\<open>activeDial\<close> objects (by address),
  the objects allocated so far, and the workers spawned (peer and the object whose request
  channel the worker reads).
\<close>

record dialSync =
  dials :: "nat \<rightharpoonup> nat"
  adHeap :: "nat \<rightharpoonup> activeDial"
  nextAd :: nat
  workers :: "(nat \<times> nat) list"

definition newDialSync :: dialSync where
  "newDialSync = \<lparr>dials = Map.empty, adHeap = Map.empty, nextAd = 0, workers = []\<rparr>"

text \<open>\<^verbatim>\<open>getActiveDial\<close>, one critical section: the object's address and the new state.\<close>

definition getActiveDial :: "dialSync \<Rightarrow> nat \<Rightarrow> nat \<times> dialSync" where
  "getActiveDial ds p =
     (let (actd, ds1) =
        (case dials ds p of
           Some a \<Rightarrow> (a, ds)
         | None \<Rightarrow>
             (let a = nextAd ds in
              (a, ds\<lparr>adHeap := (adHeap ds)(a \<mapsto>
                          \<lparr>refCnt = 0, cancelledWith = None, reqchCloses = 0\<rparr>),
                      nextAd := Suc a,
                      workers := workers ds @ [(p, a)],
                      dials := (dials ds)(p \<mapsto> a)\<rparr>)))
      in (actd,
          ds1\<lparr>adHeap := (case adHeap ds1 actd of
                             None \<Rightarrow> adHeap ds1
                           | Some ad \<Rightarrow> (adHeap ds1)(actd \<mapsto> ad\<lparr>refCnt := refCnt ad + 1\<rparr>))\<rparr>))"

text \<open>
  The critical section that ends \<^verbatim>\<open>Dial\<close>, for the object \<open>a\<close> the call holds and the
  error \<open>err\<close> of its \<^verbatim>\<open>ad.dial\<close> (\<open>None\<close> is nil).
\<close>

definition dialRelease :: "dialSync \<Rightarrow> nat \<Rightarrow> nat \<Rightarrow> go_error option \<Rightarrow> dialSync" where
  "dialRelease ds p a err =
     (case adHeap ds a of
        None \<Rightarrow> ds
      | Some ad \<Rightarrow>
          (let ad1 = ad\<lparr>refCnt := refCnt ad - 1\<rparr> in
           if refCnt ad1 = 0 then
             (let cause = (case err of None \<Rightarrow> errConcurrentDialSuccessful | Some e \<Rightarrow> e);
                  ad2 = ad1\<lparr>cancelledWith :=
                              (case cancelledWith ad1 of None \<Rightarrow> Some cause | Some c \<Rightarrow> Some c),
                            reqchCloses := reqchCloses ad1 + 1\<rparr>
              in ds\<lparr>adHeap := (adHeap ds)(a \<mapsto> ad2), dials := (dials ds)(p := None)\<rparr>)
           else ds\<lparr>adHeap := (adHeap ds)(a \<mapsto> ad1)\<rparr>))"

text \<open>
  The \<^verbatim>\<open>Dial\<close> calls in flight: a call that has left \<^verbatim>\<open>getActiveDial\<close> holds its
  \<^verbatim>\<open>activeDial\<close> until its last critical section. Both sections run under the one mutex,
  so a run of the synchroniser is a sequence of these two events, in any order the
  callers produce.
\<close>

record dial_system =
  sync :: dialSync
  calls :: "(nat \<times> nat \<times> nat) list"

datatype dial_event =
    EvDialEnter nat nat
  | EvDialLeave nat "go_error option"

definition callOf :: "dial_system \<Rightarrow> nat \<Rightarrow> (nat \<times> nat \<times> nat) option" where
  "callOf sys k = find (\<lambda>c. fst c = k) (calls sys)"

definition dial_step :: "dial_system \<Rightarrow> dial_event \<Rightarrow> dial_system option" where
  "dial_step sys ev =
     (case ev of
        EvDialEnter k p \<Rightarrow>
          (case callOf sys k of
             Some c \<Rightarrow> None
           | None \<Rightarrow>
               (let (a, ds') = getActiveDial (sync sys) p
                in Some \<lparr>sync = ds', calls = (k, p, a) # calls sys\<rparr>))
      | EvDialLeave k err \<Rightarrow>
          (case callOf sys k of
             None \<Rightarrow> None
           | Some (k', p, a) \<Rightarrow>
               Some \<lparr>sync = dialRelease (sync sys) p a err,
                     calls = remove1 (k', p, a) (calls sys)\<rparr>))"

fun dial_run :: "dial_system \<Rightarrow> dial_event list \<Rightarrow> dial_system option" where
  "dial_run sys [] = Some sys"
| "dial_run sys (ev # evs) =
     (case dial_step sys ev of None \<Rightarrow> None | Some sys' \<Rightarrow> dial_run sys' evs)"

definition dial_init :: dial_system where
  "dial_init = \<lparr>sync = newDialSync, calls = []\<rparr>"

text \<open>The number of calls in flight that hold the object \<open>a\<close>.\<close>

definition holders :: "dial_system \<Rightarrow> nat \<Rightarrow> nat" where
  "holders sys a = length (filter (\<lambda>c. snd (snd c) = a) (calls sys))"

text \<open>An \<^verbatim>\<open>activeDial\<close> is live until its context is cancelled.\<close>

definition liveDial :: "dialSync \<Rightarrow> nat \<Rightarrow> bool" where
  "liveDial ds a = (case adHeap ds a of None \<Rightarrow> False | Some ad \<Rightarrow> cancelledWith ad = None)"

definition ds_inv :: "dial_system \<Rightarrow> bool" where
  "ds_inv sys =
     ((\<forall>c\<in>set (calls sys). dials (sync sys) (fst (snd c)) = Some (snd (snd c))) \<and>
      (\<forall>p a. dials (sync sys) p = Some a \<longrightarrow>
         (p, a) \<in> set (workers (sync sys)) \<and>
         (\<exists>ad. adHeap (sync sys) a = Some ad \<and> refCnt ad = int (holders sys a) \<and>
               0 < holders sys a \<and> cancelledWith ad = None \<and> reqchCloses ad = 0)) \<and>
      (\<forall>p a. (p, a) \<in> set (workers (sync sys)) \<longrightarrow>
         a < nextAd (sync sys) \<and>
         (dials (sync sys) p \<noteq> Some a \<longrightarrow>
            (\<exists>ad. adHeap (sync sys) a = Some ad \<and> refCnt ad = 0 \<and>
                  cancelledWith ad \<noteq> None \<and> reqchCloses ad = 1))) \<and>
      (\<forall>p q a. (p, a) \<in> set (workers (sync sys)) \<and> (q, a) \<in> set (workers (sync sys))
         \<longrightarrow> p = q))"

lemma ds_invD:
  assumes "ds_inv sys"
  shows "\<And>c. c \<in> set (calls sys) \<Longrightarrow> dials (sync sys) (fst (snd c)) = Some (snd (snd c))"
    and "\<And>p a. dials (sync sys) p = Some a \<Longrightarrow> (p, a) \<in> set (workers (sync sys))"
    and "\<And>p a. dials (sync sys) p = Some a \<Longrightarrow>
           \<exists>ad. adHeap (sync sys) a = Some ad \<and> refCnt ad = int (holders sys a) \<and>
               0 < holders sys a \<and> cancelledWith ad = None \<and> reqchCloses ad = 0"
    and "\<And>p a. (p, a) \<in> set (workers (sync sys)) \<Longrightarrow> a < nextAd (sync sys)"
    and "\<And>p a. (p, a) \<in> set (workers (sync sys)) \<Longrightarrow> dials (sync sys) p \<noteq> Some a \<Longrightarrow>
           \<exists>ad. adHeap (sync sys) a = Some ad \<and> refCnt ad = 0 \<and>
                  cancelledWith ad \<noteq> None \<and> reqchCloses ad = 1"
    and "\<And>p q a. (p, a) \<in> set (workers (sync sys)) \<Longrightarrow> (q, a) \<in> set (workers (sync sys))
           \<Longrightarrow> p = q"
  using assms unfolding ds_inv_def by blast+

lemma ds_invI:
  assumes "\<And>c. c \<in> set (calls sys) \<Longrightarrow> dials (sync sys) (fst (snd c)) = Some (snd (snd c))"
    and "\<And>p a. dials (sync sys) p = Some a \<Longrightarrow> (p, a) \<in> set (workers (sync sys))"
    and "\<And>p a. dials (sync sys) p = Some a \<Longrightarrow>
           \<exists>ad. adHeap (sync sys) a = Some ad \<and> refCnt ad = int (holders sys a) \<and>
               0 < holders sys a \<and> cancelledWith ad = None \<and> reqchCloses ad = 0"
    and "\<And>p a. (p, a) \<in> set (workers (sync sys)) \<Longrightarrow> a < nextAd (sync sys)"
    and "\<And>p a. (p, a) \<in> set (workers (sync sys)) \<Longrightarrow> dials (sync sys) p \<noteq> Some a \<Longrightarrow>
           \<exists>ad. adHeap (sync sys) a = Some ad \<and> refCnt ad = 0 \<and>
                  cancelledWith ad \<noteq> None \<and> reqchCloses ad = 1"
    and "\<And>p q a. (p, a) \<in> set (workers (sync sys)) \<Longrightarrow> (q, a) \<in> set (workers (sync sys))
           \<Longrightarrow> p = q"
  shows "ds_inv sys"
  unfolding ds_inv_def using assms by blast

lemma ds_inv_init: "ds_inv dial_init"
  by (simp add: ds_inv_def dial_init_def newDialSync_def)

lemma getActiveDial_existing:
  assumes "dials ds p = Some a" "adHeap ds a = Some ad"
  shows "getActiveDial ds p =
           (a, ds\<lparr>adHeap := (adHeap ds)(a \<mapsto> ad\<lparr>refCnt := refCnt ad + 1\<rparr>)\<rparr>)"
  using assms by (simp add: getActiveDial_def)

lemma getActiveDial_new:
  assumes "dials ds p = None"
  shows "getActiveDial ds p =
           (nextAd ds,
            ds\<lparr>adHeap := (adHeap ds)(nextAd ds \<mapsto>
                   \<lparr>refCnt = 1, cancelledWith = None, reqchCloses = 0\<rparr>),
               nextAd := Suc (nextAd ds),
               workers := workers ds @ [(p, nextAd ds)],
               dials := (dials ds)(p \<mapsto> nextAd ds)\<rparr>)"
  using assms by (simp add: getActiveDial_def Let_def)

lemma holders_Cons:
  "holders \<lparr>sync = ds', calls = (k, p, a) # calls sys\<rparr> b =
     (if a = b then Suc (holders sys b) else holders sys b)"
  by (simp add: holders_def)

lemma holders_remove1:
  assumes "(k, p, a) \<in> set (calls sys)"
  shows "holders \<lparr>sync = ds', calls = remove1 (k, p, a) (calls sys)\<rparr> b =
     (if a = b then holders sys b - 1 else holders sys b)"
proof -
  have "length (filter P (remove1 x xs)) = (if P x then length (filter P xs) - 1 else length (filter P xs))"
    if "x \<in> set xs" for P and x :: "nat \<times> nat \<times> nat" and xs
    using that
  proof (induction xs)
    case Nil
    then show ?case by simp
  next
    case (Cons y ys)
    show ?case
    proof (cases "x = y")
      case True
      then show ?thesis by simp
    next
      case False
      with Cons.prems have mem: "x \<in> set ys" by simp
      have pos: "P x \<Longrightarrow> 0 < length (filter P ys)"
        using mem by (simp add: filter_empty_conv) blast
      from False Cons.IH[OF mem] pos show ?thesis by auto
    qed
  qed
  from this[OF assms, of "\<lambda>c. snd (snd c) = b"] show ?thesis
    by (simp add: holders_def)
qed

lemma holders_pos: "(k, p, a) \<in> set (calls sys) \<Longrightarrow> 0 < holders sys a"
  by (force simp: holders_def filter_empty_conv)

lemma holders_zero: "holders sys a = 0 \<Longrightarrow> c \<in> set (calls sys) \<Longrightarrow> snd (snd c) \<noteq> a"
  by (auto simp: holders_def filter_empty_conv)

lemma callOf_Some: "callOf sys k = Some c \<Longrightarrow> c \<in> set (calls sys) \<and> fst c = k"
  by (auto simp: callOf_def find_Some_iff)

lemma ds_inv_enter_existing:
  assumes inv: "ds_inv sys" and d: "dials (sync sys) p = Some a"
    and h: "adHeap (sync sys) a = Some ad"
  shows "ds_inv \<lparr>sync = (sync sys)\<lparr>adHeap := (adHeap (sync sys))(a \<mapsto> ad\<lparr>refCnt := refCnt ad + 1\<rparr>)\<rparr>,
                 calls = (k, p, a) # calls sys\<rparr>"
    (is "ds_inv ?sys'")
proof (rule ds_invI)
  note D = ds_invD[OF inv]
  fix c assume "c \<in> set (calls ?sys')"
  then consider "c = (k, p, a)" | "c \<in> set (calls sys)" by auto
  then show "dials (sync ?sys') (fst (snd c)) = Some (snd (snd c))"
  proof cases
    case 1
    with d show ?thesis by simp
  next
    case 2
    from D(1)[OF 2] show ?thesis by simp
  qed
next
  note D = ds_invD[OF inv]
  fix p' a' assume "dials (sync ?sys') p' = Some a'"
  then show "(p', a') \<in> set (workers (sync ?sys'))" using D(2) by simp
next
  note D = ds_invD[OF inv]
  fix p' a' assume d': "dials (sync ?sys') p' = Some a'"
  then have d0: "dials (sync sys) p' = Some a'" by simp
  from D(3)[OF d0] obtain ad' where ad': "adHeap (sync sys) a' = Some ad'"
    "refCnt ad' = int (holders sys a')" "0 < holders sys a'" "cancelledWith ad' = None"
    "reqchCloses ad' = 0" by blast
  show "\<exists>ad. adHeap (sync ?sys') a' = Some ad \<and> refCnt ad = int (holders ?sys' a') \<and>
               0 < holders ?sys' a' \<and> cancelledWith ad = None \<and> reqchCloses ad = 0"
  proof (cases "a' = a")
    case True
    with ad' h show ?thesis by (simp add: holders_Cons)
  next
    case False
    with ad' show ?thesis by (simp add: holders_Cons)
  qed
next
  note D = ds_invD[OF inv]
  fix p' a' assume "(p', a') \<in> set (workers (sync ?sys'))"
  then show "a' < nextAd (sync ?sys')" using D(4) by simp
next
  note D = ds_invD[OF inv]
  fix p' a' assume w: "(p', a') \<in> set (workers (sync ?sys'))"
    and nd: "dials (sync ?sys') p' \<noteq> Some a'"
  then have w0: "(p', a') \<in> set (workers (sync sys))" and nd0: "dials (sync sys) p' \<noteq> Some a'"
    by simp_all
  from D(5)[OF w0 nd0] obtain ad' where ad': "adHeap (sync sys) a' = Some ad'"
    "refCnt ad' = 0" "cancelledWith ad' \<noteq> None" "reqchCloses ad' = 1" by blast
  from D(3)[OF d] h have "cancelledWith ad = None" by simp
  with ad' h have "a' \<noteq> a" by auto
  with ad' show "\<exists>ad. adHeap (sync ?sys') a' = Some ad \<and> refCnt ad = 0 \<and>
                  cancelledWith ad \<noteq> None \<and> reqchCloses ad = 1" by simp
next
  note D = ds_invD[OF inv]
  fix p' q a' assume "(p', a') \<in> set (workers (sync ?sys'))" "(q, a') \<in> set (workers (sync ?sys'))"
  then show "p' = q" using D(6) by simp
qed

lemma ds_inv_enter_new:
  assumes inv: "ds_inv sys" and d: "dials (sync sys) p = None"
  shows "ds_inv \<lparr>sync = (sync sys)\<lparr>adHeap := (adHeap (sync sys))(nextAd (sync sys) \<mapsto>
                   \<lparr>refCnt = 1, cancelledWith = None, reqchCloses = 0\<rparr>),
               nextAd := Suc (nextAd (sync sys)),
               workers := workers (sync sys) @ [(p, nextAd (sync sys))],
               dials := (dials (sync sys))(p \<mapsto> nextAd (sync sys))\<rparr>,
             calls = (k, p, nextAd (sync sys)) # calls sys\<rparr>"
    (is "ds_inv ?sys'")
proof -
  note D = ds_invD[OF inv]
  let ?a = "nextAd (sync sys)"
  have old_lt: "a' < ?a" if "dials (sync sys) p' = Some a'" for p' a'
    using D(4)[OF D(2)[OF that]] .
  have h0: "holders sys ?a = 0"
  proof (rule ccontr)
    assume "holders sys ?a \<noteq> 0"
    then obtain c where c: "c \<in> set (calls sys)" "snd (snd c) = ?a"
      by (auto simp: holders_def filter_empty_conv)
    from D(1)[OF c(1)] c(2) have "dials (sync sys) (fst (snd c)) = Some ?a" by simp
    from old_lt[OF this] show False by simp
  qed
  show ?thesis
  proof (rule ds_invI)
    fix c assume "c \<in> set (calls ?sys')"
    then consider "c = (k, p, ?a)" | "c \<in> set (calls sys)" by auto
    then show "dials (sync ?sys') (fst (snd c)) = Some (snd (snd c))"
    proof cases
      case 1
      then show ?thesis by simp
    next
      case 2
      from D(1)[OF 2] d have "fst (snd c) \<noteq> p" by auto
      with D(1)[OF 2] show ?thesis by simp
    qed
  next
    fix p' a' assume "dials (sync ?sys') p' = Some a'"
    then show "(p', a') \<in> set (workers (sync ?sys'))"
      using D(2) by (auto split: if_splits)
  next
    fix p' a' assume d': "dials (sync ?sys') p' = Some a'"
    show "\<exists>ad. adHeap (sync ?sys') a' = Some ad \<and> refCnt ad = int (holders ?sys' a') \<and>
               0 < holders ?sys' a' \<and> cancelledWith ad = None \<and> reqchCloses ad = 0"
    proof (cases "p' = p")
      case True
      with d' have "a' = ?a" by simp
      with h0 show ?thesis by (simp add: holders_Cons)
    next
      case False
      with d' have d0: "dials (sync sys) p' = Some a'" by simp
      from old_lt[OF d0] have ne: "a' \<noteq> ?a" by simp
      from D(3)[OF d0] ne show ?thesis by (simp add: holders_Cons)
    qed
  next
    fix p' a' assume "(p', a') \<in> set (workers (sync ?sys'))"
    then show "a' < nextAd (sync ?sys')"
      using D(4) by (auto simp: less_Suc_eq)
  next
    fix p' a' assume w: "(p', a') \<in> set (workers (sync ?sys'))"
      and nd: "dials (sync ?sys') p' \<noteq> Some a'"
    from w consider "(p', a') = (p, ?a)" | "(p', a') \<in> set (workers (sync sys))" by auto
    then show "\<exists>ad. adHeap (sync ?sys') a' = Some ad \<and> refCnt ad = 0 \<and>
                  cancelledWith ad \<noteq> None \<and> reqchCloses ad = 1"
    proof cases
      case 1
      with nd show ?thesis by simp
    next
      case 2
      from D(4)[OF 2] have ne: "a' \<noteq> ?a" by simp
      have "dials (sync sys) p' \<noteq> Some a'"
      proof (cases "p' = p")
        case True
        with d show ?thesis by simp
      next
        case False
        with nd show ?thesis by simp
      qed
      from D(5)[OF 2 this] ne show ?thesis by simp
    qed
  next
    fix p' q a' assume w: "(p', a') \<in> set (workers (sync ?sys'))"
      "(q, a') \<in> set (workers (sync ?sys'))"
    show "p' = q"
    proof (cases "a' = ?a")
      case True
      have "(x, ?a) \<notin> set (workers (sync sys))" for x
        using D(4)[of x ?a] by auto
      with w True show ?thesis by auto
    next
      case False
      with w D(6) show ?thesis by auto
    qed
  qed
qed

lemma ds_inv_leave:
  assumes inv: "ds_inv sys" and c: "(k, p, a) \<in> set (calls sys)"
  shows "ds_inv \<lparr>sync = dialRelease (sync sys) p a err,
                 calls = remove1 (k, p, a) (calls sys)\<rparr>"
    (is "ds_inv ?sys'")
proof -
  note D = ds_invD[OF inv]
  from D(1)[OF c] have d: "dials (sync sys) p = Some a" by simp
  from D(3)[OF d] obtain ad where ad: "adHeap (sync sys) a = Some ad"
    "refCnt ad = int (holders sys a)" "0 < holders sys a" "cancelledWith ad = None"
    "reqchCloses ad = 0" by blast
  note hr = holders_remove1[OF c]
  have other_a: "a' \<noteq> a" if "dials (sync sys) p' = Some a'" "p' \<noteq> p" for p' a'
    using D(6)[OF D(2)[OF that(1)], of p] D(2)[OF d] that(2) by auto
  show ?thesis
  proof (cases "holders sys a = 1")
    case True
    let ?cause = "case err of None \<Rightarrow> errConcurrentDialSuccessful | Some e \<Rightarrow> e"
    have rel: "dialRelease (sync sys) p a err =
        (sync sys)\<lparr>adHeap := (adHeap (sync sys))(a \<mapsto>
                      ad\<lparr>refCnt := 0, cancelledWith := Some ?cause, reqchCloses := 1\<rparr>),
                   dials := (dials (sync sys))(p := None)\<rparr>"
      using ad True by (simp add: dialRelease_def Let_def)
    have h0: "holders ?sys' a = 0" using True by (simp add: hr)
    show ?thesis
    proof (rule ds_invI)
      fix c' assume c': "c' \<in> set (calls ?sys')"
      then have c0: "c' \<in> set (calls sys)" using set_remove1_subset[of "(k, p, a)" "calls sys"] by auto
      from holders_zero[OF h0 c'] have "snd (snd c') \<noteq> a" .
      with D(1)[OF c0] d have "fst (snd c') \<noteq> p" by auto
      with D(1)[OF c0] show "dials (sync ?sys') (fst (snd c')) = Some (snd (snd c'))"
        by (simp add: rel)
    next
      fix p' a' assume "dials (sync ?sys') p' = Some a'"
      then show "(p', a') \<in> set (workers (sync ?sys'))"
        using D(2) by (auto simp: rel split: if_splits)
    next
      fix p' a' assume "dials (sync ?sys') p' = Some a'"
      then have d0: "dials (sync sys) p' = Some a'" "p' \<noteq> p"
        by (auto simp: rel split: if_splits)
      from other_a[OF d0] have ne: "a' \<noteq> a" .
      with D(3)[OF d0(1)] show "\<exists>ad. adHeap (sync ?sys') a' = Some ad \<and>
               refCnt ad = int (holders ?sys' a') \<and>
               0 < holders ?sys' a' \<and> cancelledWith ad = None \<and> reqchCloses ad = 0"
        by (simp add: rel hr)
    next
      fix p' a' assume "(p', a') \<in> set (workers (sync ?sys'))"
      then show "a' < nextAd (sync ?sys')" using D(4) by (simp add: rel)
    next
      fix p' a' assume w: "(p', a') \<in> set (workers (sync ?sys'))"
        and nd: "dials (sync ?sys') p' \<noteq> Some a'"
      from w have w0: "(p', a') \<in> set (workers (sync sys))" by (simp add: rel)
      show "\<exists>ad. adHeap (sync ?sys') a' = Some ad \<and> refCnt ad = 0 \<and>
                  cancelledWith ad \<noteq> None \<and> reqchCloses ad = 1"
      proof (cases "a' = a")
        case True
        then show ?thesis by (simp add: rel)
      next
        case False
        have "dials (sync sys) p' \<noteq> Some a'"
        proof (cases "p' = p")
          case True
          with d False show ?thesis by simp
        next
          case False
          with nd show ?thesis by (simp add: rel)
        qed
        from D(5)[OF w0 this] False show ?thesis by (simp add: rel)
      qed
    next
      fix p' q a' assume "(p', a') \<in> set (workers (sync ?sys'))"
        "(q, a') \<in> set (workers (sync ?sys'))"
      then show "p' = q" using D(6) by (simp add: rel)
    qed
  next
    case False
    with ad(3) have h2: "2 \<le> holders sys a" by simp
    have rel: "dialRelease (sync sys) p a err =
        (sync sys)\<lparr>adHeap := (adHeap (sync sys))(a \<mapsto> ad\<lparr>refCnt := refCnt ad - 1\<rparr>)\<rparr>"
      using ad False by (simp add: dialRelease_def Let_def)
    show ?thesis
    proof (rule ds_invI)
      fix c' assume "c' \<in> set (calls ?sys')"
      then have "c' \<in> set (calls sys)" using set_remove1_subset[of "(k, p, a)" "calls sys"] by auto
      from D(1)[OF this] show "dials (sync ?sys') (fst (snd c')) = Some (snd (snd c'))"
        by (simp add: rel)
    next
      fix p' a' assume "dials (sync ?sys') p' = Some a'"
      then show "(p', a') \<in> set (workers (sync ?sys'))"
        using D(2) by (simp add: rel)
    next
      fix p' a' assume "dials (sync ?sys') p' = Some a'"
      then have d0: "dials (sync sys) p' = Some a'" by (simp add: rel)
      show "\<exists>ad. adHeap (sync ?sys') a' = Some ad \<and>
               refCnt ad = int (holders ?sys' a') \<and>
               0 < holders ?sys' a' \<and> cancelledWith ad = None \<and> reqchCloses ad = 0"
      proof (cases "a' = a")
        case True
        with ad h2 show ?thesis by (simp add: rel hr)
      next
        case False
        with D(3)[OF d0] show ?thesis by (simp add: rel hr)
      qed
    next
      fix p' a' assume "(p', a') \<in> set (workers (sync ?sys'))"
      then show "a' < nextAd (sync ?sys')" using D(4) by (simp add: rel)
    next
      fix p' a' assume w: "(p', a') \<in> set (workers (sync ?sys'))"
        and nd: "dials (sync ?sys') p' \<noteq> Some a'"
      from w have w0: "(p', a') \<in> set (workers (sync sys))" by (simp add: rel)
      from nd have nd0: "dials (sync sys) p' \<noteq> Some a'" by (simp add: rel)
      from D(5)[OF w0 nd0] obtain ad' where ad': "adHeap (sync sys) a' = Some ad'"
        "refCnt ad' = 0" "cancelledWith ad' \<noteq> None" "reqchCloses ad' = 1" by blast
      with ad have "a' \<noteq> a" by auto
      with ad' show "\<exists>ad. adHeap (sync ?sys') a' = Some ad \<and> refCnt ad = 0 \<and>
                  cancelledWith ad \<noteq> None \<and> reqchCloses ad = 1"
        by (simp add: rel)
    next
      fix p' q a' assume "(p', a') \<in> set (workers (sync ?sys'))"
        "(q, a') \<in> set (workers (sync ?sys'))"
      then show "p' = q" using D(6) by (simp add: rel)
    qed
  qed
qed

lemma ds_inv_step:
  assumes inv: "ds_inv sys" and step: "dial_step sys ev = Some sys'"
  shows "ds_inv sys'"
proof (cases ev)
  case (EvDialEnter k p)
  with step have free: "callOf sys k = None"
    by (auto simp: dial_step_def split: option.splits)
  show ?thesis
  proof (cases "dials (sync sys) p")
    case None
    from step EvDialEnter free getActiveDial_new[OF None] ds_inv_enter_new[OF inv None, of k]
    show ?thesis by (simp add: dial_step_def)
  next
    case (Some a)
    from ds_invD(3)[OF inv Some] obtain ad where ad: "adHeap (sync sys) a = Some ad" by blast
    from step EvDialEnter free getActiveDial_existing[OF Some ad]
      ds_inv_enter_existing[OF inv Some ad, of k]
    show ?thesis by (simp add: dial_step_def)
  qed
next
  case (EvDialLeave k err)
  with step obtain k' p a where c: "callOf sys k = Some (k', p, a)"
    and s': "sys' = \<lparr>sync = dialRelease (sync sys) p a err,
                     calls = remove1 (k', p, a) (calls sys)\<rparr>"
    by (auto simp: dial_step_def split: option.splits)
  from callOf_Some[OF c] have "(k', p, a) \<in> set (calls sys)" by blast
  from ds_inv_leave[OF inv this] s' show ?thesis by simp
qed

lemma ds_inv_run: "ds_inv sys \<Longrightarrow> dial_run sys evs = Some sys' \<Longrightarrow> ds_inv sys'"
  by (induction evs arbitrary: sys) (auto split: option.splits dest: ds_inv_step)

lemma dial_live_registered:
  assumes inv: "ds_inv sys" and w: "(p, a) \<in> set (workers (sync sys))"
    and l: "liveDial (sync sys) a"
  shows "dials (sync sys) p = Some a"
proof (rule ccontr)
  assume "dials (sync sys) p \<noteq> Some a"
  from ds_invD(5)[OF inv w this] l show False by (auto simp: liveDial_def)
qed

text \<open>
  Claim C2. In every state the synchroniser can reach: (a) a peer has at most one live
  \<^verbatim>\<open>activeDial\<close>, the one the registry holds for it, and its reference count is the number
  of \<^verbatim>\<open>Dial\<close> calls in flight on it; (b) a \<^verbatim>\<open>Dial\<close> for a peer that has a registered record
  attaches to that record: no new record, no new worker, the count goes up by one;
  (c) the \<^verbatim>\<open>Dial\<close> call that brings the count back to zero cancels the record's context
  with its own error, or with \<^verbatim>\<open>errConcurrentDialSuccessful\<close> when it has none, closes the
  request channel (once) and removes the record from the registry; a call that leaves
  while others remain only lowers the count.
\<close>

theorem dialSync_one_active_dial:
  assumes run: "dial_run dial_init evs = Some sys"
  shows
    "(\<forall>p a b. (p, a) \<in> set (workers (sync sys)) \<and> (p, b) \<in> set (workers (sync sys)) \<and>
        liveDial (sync sys) a \<and> liveDial (sync sys) b \<longrightarrow>
        a = b \<and> dials (sync sys) p = Some a) \<and>
     (\<forall>p a. dials (sync sys) p = Some a \<longrightarrow>
        liveDial (sync sys) a \<and> (p, a) \<in> set (workers (sync sys)) \<and>
        (\<exists>ad. adHeap (sync sys) a = Some ad \<and> refCnt ad = int (holders sys a) \<and>
              0 < refCnt ad \<and> reqchCloses ad = 0)) \<and>
     (\<forall>k p a ad. dials (sync sys) p = Some a \<and> adHeap (sync sys) a = Some ad \<and>
        callOf sys k = None \<longrightarrow>
        (\<exists>sys'. dial_step sys (EvDialEnter k p) = Some sys' \<and>
           callOf sys' k = Some (k, p, a) \<and>
           dials (sync sys') = dials (sync sys) \<and>
           workers (sync sys') = workers (sync sys) \<and>
           adHeap (sync sys') = (adHeap (sync sys))(a \<mapsto> ad\<lparr>refCnt := refCnt ad + 1\<rparr>))) \<and>
     (\<forall>k p a err. callOf sys k = Some (k, p, a) \<longrightarrow>
        (\<exists>sys' ad ad'. dial_step sys (EvDialLeave k err) = Some sys' \<and>
           adHeap (sync sys) a = Some ad \<and> adHeap (sync sys') a = Some ad' \<and>
           refCnt ad' = refCnt ad - 1 \<and>
           (refCnt ad = 1 \<longrightarrow>
              dials (sync sys') p = None \<and>
              cancelledWith ad' =
                Some (case err of None \<Rightarrow> errConcurrentDialSuccessful | Some e \<Rightarrow> e) \<and>
              reqchCloses ad' = 1) \<and>
           (refCnt ad \<noteq> 1 \<longrightarrow>
              dials (sync sys') p = Some a \<and> cancelledWith ad' = None \<and>
              reqchCloses ad' = 0 \<and> 0 < refCnt ad')))"
proof -
  from ds_inv_run[OF ds_inv_init run] have inv: "ds_inv sys" .
  note D = ds_invD[OF inv]
  have A: "\<forall>p a b. (p, a) \<in> set (workers (sync sys)) \<and> (p, b) \<in> set (workers (sync sys)) \<and>
        liveDial (sync sys) a \<and> liveDial (sync sys) b \<longrightarrow>
        a = b \<and> dials (sync sys) p = Some a"
  proof (intro allI impI)
    fix p a b
    assume h: "(p, a) \<in> set (workers (sync sys)) \<and> (p, b) \<in> set (workers (sync sys)) \<and>
        liveDial (sync sys) a \<and> liveDial (sync sys) b"
    then have "dials (sync sys) p = Some a" "dials (sync sys) p = Some b"
      using dial_live_registered[OF inv] by blast+
    then show "a = b \<and> dials (sync sys) p = Some a" by simp
  qed
  have B: "\<forall>p a. dials (sync sys) p = Some a \<longrightarrow>
        liveDial (sync sys) a \<and> (p, a) \<in> set (workers (sync sys)) \<and>
        (\<exists>ad. adHeap (sync sys) a = Some ad \<and> refCnt ad = int (holders sys a) \<and>
              0 < refCnt ad \<and> reqchCloses ad = 0)"
  proof (intro allI impI)
    fix p a assume d: "dials (sync sys) p = Some a"
    from D(3)[OF d] obtain ad where ad: "adHeap (sync sys) a = Some ad"
      "refCnt ad = int (holders sys a)" "0 < holders sys a" "cancelledWith ad = None"
      "reqchCloses ad = 0" by blast
    then have "liveDial (sync sys) a" by (simp add: liveDial_def)
    with D(2)[OF d] ad show "liveDial (sync sys) a \<and> (p, a) \<in> set (workers (sync sys)) \<and>
        (\<exists>ad. adHeap (sync sys) a = Some ad \<and> refCnt ad = int (holders sys a) \<and>
              0 < refCnt ad \<and> reqchCloses ad = 0)" by simp
  qed
  have C: "\<forall>k p a ad. dials (sync sys) p = Some a \<and> adHeap (sync sys) a = Some ad \<and>
        callOf sys k = None \<longrightarrow>
        (\<exists>sys'. dial_step sys (EvDialEnter k p) = Some sys' \<and>
           callOf sys' k = Some (k, p, a) \<and>
           dials (sync sys') = dials (sync sys) \<and>
           workers (sync sys') = workers (sync sys) \<and>
           adHeap (sync sys') = (adHeap (sync sys))(a \<mapsto> ad\<lparr>refCnt := refCnt ad + 1\<rparr>))"
  proof (intro allI impI)
    fix k p a ad
    assume h: "dials (sync sys) p = Some a \<and> adHeap (sync sys) a = Some ad \<and>
        callOf sys k = None"
    then have g: "getActiveDial (sync sys) p =
        (a, (sync sys)\<lparr>adHeap := (adHeap (sync sys))(a \<mapsto> ad\<lparr>refCnt := refCnt ad + 1\<rparr>)\<rparr>)"
      using getActiveDial_existing by blast
    with h show "\<exists>sys'. dial_step sys (EvDialEnter k p) = Some sys' \<and>
           callOf sys' k = Some (k, p, a) \<and>
           dials (sync sys') = dials (sync sys) \<and>
           workers (sync sys') = workers (sync sys) \<and>
           adHeap (sync sys') = (adHeap (sync sys))(a \<mapsto> ad\<lparr>refCnt := refCnt ad + 1\<rparr>)"
      by (simp add: dial_step_def callOf_def)
  qed
  have E: "\<forall>k p a err. callOf sys k = Some (k, p, a) \<longrightarrow>
        (\<exists>sys' ad ad'. dial_step sys (EvDialLeave k err) = Some sys' \<and>
           adHeap (sync sys) a = Some ad \<and> adHeap (sync sys') a = Some ad' \<and>
           refCnt ad' = refCnt ad - 1 \<and>
           (refCnt ad = 1 \<longrightarrow>
              dials (sync sys') p = None \<and>
              cancelledWith ad' =
                Some (case err of None \<Rightarrow> errConcurrentDialSuccessful | Some e \<Rightarrow> e) \<and>
              reqchCloses ad' = 1) \<and>
           (refCnt ad \<noteq> 1 \<longrightarrow>
              dials (sync sys') p = Some a \<and> cancelledWith ad' = None \<and>
              reqchCloses ad' = 0 \<and> 0 < refCnt ad'))"
  proof (intro allI impI)
    fix k p a err
    assume c: "callOf sys k = Some (k, p, a)"
    from callOf_Some[OF c] have mem: "(k, p, a) \<in> set (calls sys)" by blast
    from D(1)[OF mem] have d: "dials (sync sys) p = Some a" by simp
    from D(3)[OF d] obtain ad where ad: "adHeap (sync sys) a = Some ad"
      "refCnt ad = int (holders sys a)" "0 < holders sys a" "cancelledWith ad = None"
      "reqchCloses ad = 0" by blast
    let ?sys' = "\<lparr>sync = dialRelease (sync sys) p a err,
                  calls = remove1 (k, p, a) (calls sys)\<rparr>"
    have st: "dial_step sys (EvDialLeave k err) = Some ?sys'"
      using c by (simp add: dial_step_def)
    show "\<exists>sys' ad ad'. dial_step sys (EvDialLeave k err) = Some sys' \<and>
           adHeap (sync sys) a = Some ad \<and> adHeap (sync sys') a = Some ad' \<and>
           refCnt ad' = refCnt ad - 1 \<and>
           (refCnt ad = 1 \<longrightarrow>
              dials (sync sys') p = None \<and>
              cancelledWith ad' =
                Some (case err of None \<Rightarrow> errConcurrentDialSuccessful | Some e \<Rightarrow> e) \<and>
              reqchCloses ad' = 1) \<and>
           (refCnt ad \<noteq> 1 \<longrightarrow>
              dials (sync sys') p = Some a \<and> cancelledWith ad' = None \<and>
              reqchCloses ad' = 0 \<and> 0 < refCnt ad')"
    proof (cases "refCnt ad = 1")
      case True
      with ad d st show ?thesis
        by (auto simp: dialRelease_def Let_def)
    next
      case False
      with ad d st show ?thesis
        by (auto simp: dialRelease_def Let_def)
    qed
  qed
  from A B C E show ?thesis by blast
qed

definition dial_trace1 :: "dial_event list" where
  "dial_trace1 = [EvDialEnter 1 7, EvDialEnter 2 7, EvDialLeave 1 (Some (OtherError 3))]"

lemmas dial_defs = dial_step_def callOf_def getActiveDial_def dialRelease_def dial_init_def
  newDialSync_def

theorem dialSync_one_active_dial_witness:
  "dial_run dial_init dial_trace1 \<noteq> None \<and>
   workers (sync (the (dial_run dial_init dial_trace1))) = [(7, 0)] \<and>
   liveDial (sync (the (dial_run dial_init dial_trace1))) 0 \<and>
   dials (sync (the (dial_run dial_init dial_trace1))) 7 = Some 0 \<and>
   callOf (the (dial_run dial_init dial_trace1)) 2 = Some (2, 7, 0) \<and>
   callOf (the (dial_run dial_init dial_trace1)) 3 = None \<and>
   (\<exists>sys'. dial_step (the (dial_run dial_init dial_trace1)) (EvDialEnter 3 7) = Some sys' \<and>
      callOf sys' 3 = Some (3, 7, 0) \<and> workers (sync sys') = [(7, 0)]) \<and>
   (\<exists>sys' ad'. dial_step (the (dial_run dial_init dial_trace1)) (EvDialLeave 2 None) = Some sys' \<and>
      adHeap (sync sys') 0 = Some ad' \<and> refCnt ad' = 0 \<and> dials (sync sys') 7 = None \<and>
      cancelledWith ad' = Some errConcurrentDialSuccessful \<and> reqchCloses ad' = 1)"
proof -
  let ?sys = "the (dial_run dial_init dial_trace1)"
  have r: "dial_run dial_init dial_trace1 \<noteq> None"
    by (simp add: dial_trace1_def dial_defs Let_def)
  then have run: "dial_run dial_init dial_trace1 = Some ?sys" by simp
  note t = dialSync_one_active_dial[OF run]
  have w: "workers (sync ?sys) = [(7, 0)]"
    by (simp add: dial_trace1_def dial_defs Let_def)
  have d: "dials (sync ?sys) 7 = Some 0"
    by (simp add: dial_trace1_def dial_defs Let_def)
  have c2: "callOf ?sys 2 = Some (2, 7, 0)" and c3: "callOf ?sys 3 = None"
    by (simp_all add: dial_trace1_def dial_defs Let_def)
  have rc: "\<exists>ad. adHeap (sync ?sys) 0 = Some ad \<and> refCnt ad = 1"
    by (simp add: dial_trace1_def dial_defs Let_def)
  from t d have live: "liveDial (sync ?sys) 0" by blast
  from rc obtain ad where ad: "adHeap (sync ?sys) 0 = Some ad" "refCnt ad = 1" by blast
  from t d ad(1) c3 obtain s3 where s3: "dial_step ?sys (EvDialEnter 3 7) = Some s3"
    "callOf s3 3 = Some (3, 7, 0)" "workers (sync s3) = workers (sync ?sys)"
    by blast
  from t c2 obtain s4 ad0 ad' where s4: "dial_step ?sys (EvDialLeave 2 None) = Some s4"
    "adHeap (sync ?sys) 0 = Some ad0" "adHeap (sync s4) 0 = Some ad'"
    "refCnt ad' = refCnt ad0 - 1"
    "refCnt ad0 = 1 \<longrightarrow> dials (sync s4) 7 = None \<and>
        cancelledWith ad' = Some (case None of None \<Rightarrow> errConcurrentDialSuccessful | Some e \<Rightarrow> e) \<and>
        reqchCloses ad' = 1"
    by blast
  from s4(2) ad have "refCnt ad0 = 1" by simp
  with s4 have e: "dial_step ?sys (EvDialLeave 2 None) = Some s4 \<and>
      adHeap (sync s4) 0 = Some ad' \<and> refCnt ad' = 0 \<and> dials (sync s4) 7 = None \<and>
      cancelledWith ad' = Some errConcurrentDialSuccessful \<and> reqchCloses ad' = 1"
    by simp
  from r w live d c2 c3 s3 e show ?thesis by (simp only:) blast
qed

end
